theory Spec2Isabelle
  imports Main "HOL-Library.Word" "HOL-Library.Multiset"
begin

section \<open>JavaScript strings\<close>

text \<open>
  A JavaScript string is a sequence of UTF-16 code units. The regular expressions of
  \<^verbatim>\<open>jquery.toc.js\<close> carry no \<^verbatim>\<open>u\<close> flag, so they classify one code unit at a time.
  \<open>js\<close> writes an ASCII literal as such a string.
\<close>

type_synonym code_unit = "16 word"
type_synonym jsstring = "code_unit list"

definition js :: "string \<Rightarrow> jsstring" where
  "js s = map of_char s"

text \<open>
  The class \<^verbatim>\<open>\s\<close> of ECMAScript: the white space code points and the line
  terminators. The class \<^verbatim>\<open>\w\<close>: \<^verbatim>\<open>[A-Za-z0-9_]\<close>.
\<close>

definition is_space :: "code_unit \<Rightarrow> bool" where
  "is_space c \<longleftrightarrow>
     c \<in> {0x0009, 0x000A, 0x000B, 0x000C, 0x000D, 0x0020, 0x00A0, 0x1680,
          0x2028, 0x2029, 0x202F, 0x205F, 0x3000, 0xFEFF}
     \<or> (0x2000 \<le> c \<and> c \<le> 0x200A)"

definition is_word :: "code_unit \<Rightarrow> bool" where
  "is_word c \<longleftrightarrow>
     (0x41 \<le> c \<and> c \<le> 0x5A) \<or> (0x61 \<le> c \<and> c \<le> 0x7A)
     \<or> (0x30 \<le> c \<and> c \<le> 0x39) \<or> c = 0x5F"

definition space :: code_unit where
  "space = 0x20"

definition hyphen :: code_unit where
  "hyphen = 0x2D"

definition underscore :: code_unit where
  "underscore = 0x5F"

text \<open>
  \<^verbatim>\<open>toLowerCase\<close> and \<^verbatim>\<open>toUpperCase\<close>. The program applies them to sanitised text
  only, whose code units are ASCII (lemma \<open>sanitise_chars\<close>); there they change the 26
  letters and nothing else.
\<close>

definition lower_unit :: "code_unit \<Rightarrow> code_unit" where
  "lower_unit c = (if 0x41 \<le> c \<and> c \<le> 0x5A then c + 0x20 else c)"

definition upper_unit :: "code_unit \<Rightarrow> code_unit" where
  "upper_unit c = (if 0x61 \<le> c \<and> c \<le> 0x7A then c - 0x20 else c)"

definition toLowerCase :: "jsstring \<Rightarrow> jsstring" where
  "toLowerCase s = map lower_unit s"

definition toUpperCase :: "jsstring \<Rightarrow> jsstring" where
  "toUpperCase s = map upper_unit s"

text \<open>\<^verbatim>\<open>str.split(' ')\<close>: the pieces between the spaces; never an empty array.\<close>

fun split :: "jsstring \<Rightarrow> jsstring list" where
  "split [] = [[]]"
| "split (c # cs) =
     (if c = space then [] # split cs
      else (case split cs of [] \<Rightarrow> [[c]] | w # ws \<Rightarrow> (c # w) # ws))"

text \<open>\<^verbatim>\<open>word.charAt(0)\<close> is the empty string on an empty word; \<^verbatim>\<open>word.slice(1)\<close> too.\<close>

definition charAt0 :: "jsstring \<Rightarrow> jsstring" where
  "charAt0 word = take 1 word"

definition slice1 :: "jsstring \<Rightarrow> jsstring" where
  "slice1 word = drop 1 word"

definition toCamelCase :: "jsstring \<Rightarrow> jsstring" where
  "toCamelCase str =
     concat (map2 (\<lambda>index word.
                if index = (0::nat) then toLowerCase word
                else toUpperCase (charAt0 word) @ toLowerCase (slice1 word))
              [0 ..< length (split str)] (split str))"

text \<open>
  Number to string, for the counter of the suffix. The counter is a JavaScript number
  that starts at 1 and grows by 1; it is modelled as a natural number and printed in
  decimal, which is what JavaScript prints below \<open>10^21\<close>.
\<close>

definition digit :: "nat \<Rightarrow> code_unit" where
  "digit n = of_nat (48 + n)"

fun decimal :: "nat \<Rightarrow> jsstring" where
  "decimal n = (if n < 10 then [digit n] else decimal (n div 10) @ [digit (n mod 10)])"

declare decimal.simps [simp del]

section \<open>Identifier generation\<close>

text \<open>
  \<^verbatim>\<open>thisOptions.idFormat\<close>: the strings \<^verbatim>\<open>'kebab-case'\<close> and \<^verbatim>\<open>'camelCase'\<close> select
  their branch of the \<^verbatim>\<open>switch\<close>, every other value the default.
\<close>

datatype idFormat = Underscore | Kebab | Camel

text \<open>
  The document, as far as \<^verbatim>\<open>document.getElementById\<close> reads it: the values of the
  \<^verbatim>\<open>id\<close> attributes of its elements. An element whose attribute is the empty string
  has no ID in the DOM, so the lookup of the empty string finds nothing.
  \<open>getElementById doc s\<close> holds when the lookup does not return \<^verbatim>\<open>null\<close>.
\<close>

type_synonym registry = "jsstring list"

definition getElementById :: "registry \<Rightarrow> jsstring \<Rightarrow> bool" where
  "getElementById doc s \<longleftrightarrow> s \<noteq> [] \<and> s \<in> set doc"

text \<open>Lines 82 to 84: the placeholder for a text of length 0.\<close>

definition placeholder :: "jsstring \<Rightarrow> jsstring" where
  "placeholder text0 = (if length text0 = 0 then js ''?'' else text0)"

text \<open>
  Line 87: \<^verbatim>\<open>text.replace(/\s+/g,' ').replace(/[^\w\-\s]/g,'')\<close>. The first
  replacement turns every maximal run of white space into one space, the second removes
  every code unit that is not a word character, a hyphen or white space.
\<close>

function collapse_spaces :: "jsstring \<Rightarrow> jsstring" where
  "collapse_spaces [] = []"
| "collapse_spaces (c # cs) =
     (if is_space c then space # collapse_spaces (dropWhile is_space cs)
      else c # collapse_spaces cs)"
  by pat_completeness auto
termination
  by (relation "measure length") (auto simp: length_dropWhile_le less_Suc_eq_le)

definition allowed :: "code_unit \<Rightarrow> bool" where
  "allowed c \<longleftrightarrow> is_word c \<or> c = hyphen \<or> is_space c"

definition sanitise :: "jsstring \<Rightarrow> jsstring" where
  "sanitise text0 = filter allowed (collapse_spaces text0)"

text \<open>Lines 95 to 107: the replacement of the spaces and the base identifier.\<close>

fun spaceReplacement :: "idFormat \<Rightarrow> jsstring" where
  "spaceReplacement Kebab = [hyphen]"
| "spaceReplacement Camel = []"
| "spaceReplacement Underscore = [underscore]"

definition replace_spaces :: "jsstring \<Rightarrow> jsstring \<Rightarrow> jsstring" where
  "replace_spaces r s = concat (map (\<lambda>c. if is_space c then r else [c]) s)"

fun baseId :: "idFormat \<Rightarrow> jsstring \<Rightarrow> jsstring" where
  "baseId Kebab text0 = toLowerCase (replace_spaces (spaceReplacement Kebab) text0)"
| "baseId Camel text0 = toCamelCase text0"
| "baseId Underscore text0 = replace_spaces (spaceReplacement Underscore) text0"

text \<open>
  Lines 109 to 113: the loop
  \<^verbatim>\<open>while (document.getElementById(baseId + suffix) !== null) suffix = spaceReplacement + count++;\<close>
  and the value returned after it. The document is finite and the candidates are
  pairwise different, so the loop ends; the termination proof is below.
\<close>

function find_unused :: "registry \<Rightarrow> jsstring \<Rightarrow> jsstring \<Rightarrow> jsstring \<Rightarrow> nat \<Rightarrow> jsstring" where
  "find_unused doc base sep suffix counter =
     (if getElementById doc (base @ suffix)
      then find_unused doc base sep (sep @ decimal counter) (Suc counter)
      else base @ suffix)"
  by pat_completeness auto

definition generateUniqueId :: "idFormat \<Rightarrow> registry \<Rightarrow> jsstring \<Rightarrow> jsstring" where
  "generateUniqueId fmt doc text0 =
     (let text1 = sanitise (placeholder text0)
      in find_unused doc (baseId fmt text1) (spaceReplacement fmt) [] 1)"

section \<open>The identifiers of the headings\<close>

text \<open>
  A heading element, as the program reads it: \<^verbatim>\<open>$(this).text()\<close>, the \<^verbatim>\<open>id\<close>
  attribute (\<open>None\<close> where jQuery's \<^verbatim>\<open>attr\<close> gives \<^verbatim>\<open>undefined\<close>) and the index of
  the first heading selector that the element matches.
\<close>

record heading =
  elem_text :: jsstring
  elem_id :: "jsstring option"
  elem_level :: nat

text \<open>
  Line 116, \<^verbatim>\<open>return attr || generateUniqueId($(this).text())\<close>: an attribute that is
  \<^verbatim>\<open>undefined\<close> or empty is falsy. \<open>assign\<close> gives the value returned and what
  \<^verbatim>\<open>document.getElementById\<close> reads after jQuery has set the attribute to it. An
  attribute that is kept changes nothing. A generated value is set on the heading
  element. The lookup of line 109 searches the global \<^verbatim>\<open>document\<close>, while line 55 finds
  the headings under \<^verbatim>\<open>$(thisOptions.content)\<close>, which may be an element outside that
  document (detached, or in another document). \<open>attached\<close> says whether the heading is
  inside the document searched: only then is the generated value a new entry.
\<close>

definition has_id :: "'a heading_scheme \<Rightarrow> bool" where
  "has_id h \<longleftrightarrow> (case elem_id h of None \<Rightarrow> False | Some a \<Rightarrow> a \<noteq> [])"

definition assign :: "idFormat \<Rightarrow> bool \<Rightarrow> registry \<Rightarrow> 'a heading_scheme \<Rightarrow> jsstring \<times> registry" where
  "assign fmt attached doc h =
     (if has_id h then (the (elem_id h), doc)
      else (let v = generateUniqueId fmt doc (elem_text h)
            in (v, if attached then v # doc else doc)))"

text \<open>
  Lines 55 to 117, \<^verbatim>\<open>.attr("id", function (index, attr) {...})\<close>: jQuery calls the
  function for one element after the other, with the position of the element among the
  headings found, and sets the attribute before it goes on, so each call reads the
  document that the calls before it have left. \<open>inside index\<close> says whether the heading
  at that position is inside the document searched.
\<close>

fun attr_id :: "idFormat \<Rightarrow> (nat \<Rightarrow> bool) \<Rightarrow> registry \<Rightarrow> nat \<Rightarrow> 'a heading_scheme list \<Rightarrow> 'a heading_scheme list" where
  "attr_id fmt inside doc index [] = []"
| "attr_id fmt inside doc index (h # hs) =
     h\<lparr>elem_id := Some (fst (assign fmt (inside index) doc h))\<rparr>
       # attr_id fmt inside (snd (assign fmt (inside index) doc h)) (Suc index) hs"

text \<open>
  What the lookup reads before the pass: the \<^verbatim>\<open>id\<close> attributes of the other elements of
  the document searched and of those headings that are inside it.
\<close>

definition seen_id :: "bool \<Rightarrow> 'a heading_scheme \<Rightarrow> registry" where
  "seen_id attached h =
     (if attached then (case elem_id h of None \<Rightarrow> [] | Some a \<Rightarrow> [a]) else [])"

fun heading_ids :: "(nat \<Rightarrow> bool) \<Rightarrow> nat \<Rightarrow> 'a heading_scheme list \<Rightarrow> registry" where
  "heading_ids inside index [] = []"
| "heading_ids inside index (h # hs) =
     seen_id (inside index) h @ heading_ids inside (Suc index) hs"

definition document_ids :: "(nat \<Rightarrow> bool) \<Rightarrow> registry \<Rightarrow> 'a heading_scheme list \<Rightarrow> registry" where
  "document_ids inside others hs = others @ heading_ids inside 0 hs"

definition assigned_ids :: "idFormat \<Rightarrow> (nat \<Rightarrow> bool) \<Rightarrow> registry \<Rightarrow> 'a heading_scheme list \<Rightarrow> jsstring list" where
  "assigned_ids fmt inside others hs =
     map (\<lambda>h. the (elem_id h)) (attr_id fmt inside (document_ids inside others hs) 0 hs)"

section \<open>The outline\<close>

text \<open>
  The lists that the program builds, as far as the program reads them: a list element
  has items (\<^verbatim>\<open>li\<close>), in order; an item has the text and the target of its link and
  the lists nested in it, in order. \<open>Item t h ls\<close> is an item with text \<open>t\<close>, link target
  \<open>h\<close> and nested lists \<open>ls\<close>; the outline is the list of the items of the root element.
\<close>

datatype item = Item (item_text: jsstring) (item_href: jsstring) (item_lists: "item list list")

text \<open>
  The stack of line 33 holds references to list elements of this tree, and the tree is
  changed through them. A reference is the way from the root to the list: the pair
  \<open>(i, j)\<close> goes to the nested list number \<open>j\<close> of item number \<open>i\<close>. The program only
  ever appends, an item at the end of a list or a list at the end of an item, so the way
  to a list never changes. \<open>list_at\<close> reads the list that a reference denotes and
  \<open>modify_at\<close> changes it in place; both give \<open>None\<close> for a way that leads nowhere.
\<close>

type_synonym path = "(nat \<times> nat) list"

fun list_at :: "path \<Rightarrow> item list \<Rightarrow> item list option" where
  "list_at [] l = Some l"
| "list_at ((i, j) # p) l =
     (if i < length l \<and> j < length (item_lists (l ! i))
      then list_at p (item_lists (l ! i) ! j) else None)"

fun modify_at :: "path \<Rightarrow> (item list \<Rightarrow> item list) \<Rightarrow> item list \<Rightarrow> item list option" where
  "modify_at [] f l = Some (f l)"
| "modify_at ((i, j) # p) f l =
     (if i < length l \<and> j < length (item_lists (l ! i))
      then (case modify_at p f (item_lists (l ! i) ! j) of
              None \<Rightarrow> None
            | Some l' \<Rightarrow>
                Some (l[i := Item (item_text (l ! i)) (item_href (l ! i))
                                  ((item_lists (l ! i))[j := l'])]))
      else None)"

text \<open>
  \<open>TypeError\<close> is what JavaScript throws for \<^verbatim>\<open>stack[0].children\<close> on an empty stack.
  A reference of the program cannot dangle; \<open>DanglingReference\<close> is the result of the
  model for a way that leads nowhere, and lemma \<open>process_valid\<close> shows that no run
  takes that branch.
\<close>

datatype error = TypeError | DanglingReference

text \<open>
  The state of the loop of lines 117 to 146: the lists, the stack with its top at index
  0, and \<^verbatim>\<open>currentLevel\<close>. At the start the stack holds the root element alone, whose
  items are those the element has when the plugin is called.
\<close>

record builder =
  tree :: "item list"
  stack :: "path list"
  currentLevel :: nat

definition init :: "item list \<Rightarrow> builder" where
  "init root = \<lparr>tree = root, stack = [[]], currentLevel = 0\<rparr>"

text \<open>
  Lines 129 to 132. \<^verbatim>\<open>stack[0].children("li:last")[0]\<close> is the last item of the list on
  top, \<^verbatim>\<open>undefined\<close> when it has none; \<^verbatim>\<open>appendTo(parentItem)\<close> makes a new empty list
  the last child of that item, and \<^verbatim>\<open>unshift\<close> puts the reference to it on top.
\<close>

definition appendTo_item :: "item list \<Rightarrow> item list" where
  "appendTo_item l =
     l[length l - 1 := Item (item_text (last l)) (item_href (last l)) (item_lists (last l) @ [[]])]"

definition descend :: "builder \<Rightarrow> error + builder" where
  "descend st =
     (case stack st of
        [] \<Rightarrow> Inl TypeError
      | tp # _ \<Rightarrow>
          (case list_at tp (tree st) of
             None \<Rightarrow> Inl DanglingReference
           | Some l \<Rightarrow>
               if l = [] then Inr st
               else (case modify_at tp appendTo_item (tree st) of
                       None \<Rightarrow> Inl DanglingReference
                     | Some t \<Rightarrow>
                         Inr (st\<lparr>tree := t,
                                 stack := (tp @ [(length l - 1, length (item_lists (last l)))])
                                          # stack st\<rparr>))))"

text \<open>
  Line 137, \<^verbatim>\<open>stack.splice(0, Math.min(currentLevel - level, Math.max(stack.length - 1, 0)))\<close>,
  with the arithmetic on integers as in the source; \<^verbatim>\<open>splice\<close> removes nothing for a
  number below 1.
\<close>

definition splice0 :: "int \<Rightarrow> 'a list \<Rightarrow> 'a list" where
  "splice0 deleteCount xs = drop (nat deleteCount) xs"

definition ascend :: "builder \<Rightarrow> nat \<Rightarrow> builder" where
  "ascend st level =
     st\<lparr>stack := splice0 (min (int (currentLevel st) - int level)
                             (max (int (length (stack st)) - 1) 0)) (stack st)\<rparr>"

text \<open>
  Lines 141 to 143: the new item has the text of the heading and links to \<^verbatim>\<open>"#"\<close>
  followed by its \<^verbatim>\<open>id\<close> attribute (the string \<^verbatim>\<open>undefined\<close> for a missing attribute).
  It is appended to the list on top of the stack; jQuery's \<^verbatim>\<open>appendTo(undefined)\<close>
  appends to nothing.
\<close>

definition href :: "'a heading_scheme \<Rightarrow> jsstring" where
  "href h = js ''#'' @ (case elem_id h of None \<Rightarrow> js ''undefined'' | Some a \<Rightarrow> a)"

definition list_item :: "'a heading_scheme \<Rightarrow> item" where
  "list_item h = Item (elem_text h) (href h) []"

definition appendTo_list :: "builder \<Rightarrow> item \<Rightarrow> error + builder" where
  "appendTo_list st li =
     (case stack st of
        [] \<Rightarrow> Inr st
      | tp # _ \<Rightarrow>
          (case modify_at tp (\<lambda>l. l @ [li]) (tree st) of
             None \<Rightarrow> Inl DanglingReference
           | Some t \<Rightarrow> Inr (st\<lparr>tree := t\<rparr>)))"

text \<open>The body of the loop for one heading, and the loop.\<close>

definition process :: "builder \<Rightarrow> 'a heading_scheme \<Rightarrow> error + builder" where
  "process st h =
     (case (if currentLevel st < elem_level h then descend st
            else Inr (ascend st (elem_level h))) of
        Inl e \<Rightarrow> Inl e
      | Inr st1 \<Rightarrow>
          (case appendTo_list st1 (list_item h) of
             Inl e \<Rightarrow> Inl e
           | Inr st2 \<Rightarrow> Inr (st2\<lparr>currentLevel := elem_level h\<rparr>)))"

fun process_all :: "builder \<Rightarrow> 'a heading_scheme list \<Rightarrow> error + builder" where
  "process_all st [] = Inr st"
| "process_all st (h # hs) =
     (case process st h of Inl e \<Rightarrow> Inl e | Inr st' \<Rightarrow> process_all st' hs)"

text \<open>
  The plugin for one root element: first the \<^verbatim>\<open>attr\<close> pass over all headings, then the
  loop over the headings with their identifiers set. \<open>others\<close> are the \<^verbatim>\<open>id\<close> attributes
  of the elements of the document that are not headings, \<open>inside\<close> tells which headings
  are inside that document, \<open>root\<close> are the items of the root element at the start.
\<close>

definition toc :: "idFormat \<Rightarrow> (nat \<Rightarrow> bool) \<Rightarrow> registry \<Rightarrow> item list \<Rightarrow> 'a heading_scheme list \<Rightarrow> error + builder" where
  "toc fmt inside others root hs =
     process_all (init root) (attr_id fmt inside (document_ids inside others hs) 0 hs)"

section \<open>Notions of the statements\<close>

text \<open>
  The candidates in the order the loop tries them: the base itself, then the base with
  the separator and the counter 1, 2, 3 and so on.
\<close>

definition candidate :: "idFormat \<Rightarrow> jsstring \<Rightarrow> nat \<Rightarrow> jsstring" where
  "candidate fmt base k = (if k = 0 then base else base @ spaceReplacement fmt @ decimal k)"

text \<open>
  The document that the call for the heading after \<open>hs\<close> reads: the one left by the
  calls for \<open>hs\<close>, the first of which is at position \<open>index\<close>.
\<close>

fun doc_after :: "idFormat \<Rightarrow> (nat \<Rightarrow> bool) \<Rightarrow> registry \<Rightarrow> nat \<Rightarrow> 'a heading_scheme list \<Rightarrow> registry" where
  "doc_after fmt inside doc index [] = doc"
| "doc_after fmt inside doc index (h # hs) =
     doc_after fmt inside (snd (assign fmt (inside index) doc h)) (Suc index) hs"

text \<open>The items of an outline, each with its text and its link target, as a multiset.\<close>

fun item_entries :: "item \<Rightarrow> (jsstring \<times> jsstring) multiset" where
  "item_entries (Item t h ls) = {#(t, h)#} + sum_list (map (\<lambda>l. sum_list (map item_entries l)) ls)"

definition entries :: "item list \<Rightarrow> (jsstring \<times> jsstring) multiset" where
  "entries l = sum_list (map item_entries l)"

text \<open>The shape of an outline: the nesting of its lists and items without their contents.\<close>

datatype shape = Shape "shape list list"

fun shape_of :: "item \<Rightarrow> shape" where
  "shape_of (Item t h ls) = Shape (map (map shape_of) ls)"

definition outline_shape :: "error + builder \<Rightarrow> error + shape list" where
  "outline_shape r = (case r of Inl e \<Rightarrow> Inl e | Inr st \<Rightarrow> Inr (map shape_of (tree st)))"

text \<open>
  The invariant of the loop: the stack is not empty and each of its references denotes a
  list of the tree. \<open>grows f\<close>: the change \<open>f\<close> of a list keeps every reference into it.
\<close>

definition valid_refs :: "builder \<Rightarrow> bool" where
  "valid_refs st \<longleftrightarrow> stack st \<noteq> [] \<and> (\<forall>p\<in>set (stack st). list_at p (tree st) \<noteq> None)"

definition grows :: "(item list \<Rightarrow> item list) \<Rightarrow> bool" where
  "grows f \<longleftrightarrow> (\<forall>l q. list_at q l \<noteq> None \<longrightarrow> list_at q (f l) \<noteq> None)"

text \<open>
  For the termination of the search: the number that a decimal string denotes, and the
  counters from \<open>counter\<close> on whose candidate the document holds.
\<close>

definition undecimal :: "jsstring \<Rightarrow> nat" where
  "undecimal s = foldl (\<lambda>a c. 10 * a + (unat c - 48)) 0 s"

definition pending :: "registry \<Rightarrow> jsstring \<Rightarrow> jsstring \<Rightarrow> nat \<Rightarrow> nat set" where
  "pending doc base sep counter = {k. counter \<le> k \<and> base @ sep @ decimal k \<in> set doc}"

section \<open>Example inputs\<close>

text \<open>
  Three headings: the second carries the identifier that the texts of the other two
  generate. \<open>second_run\<close> are the same headings as elements with one more field.
\<close>

definition example_headings :: "heading list" where
  "example_headings =
     [\<lparr>elem_text = js ''foo'', elem_id = None, elem_level = 0\<rparr>,
      \<lparr>elem_text = js ''bar'', elem_id = Some (js ''foo''), elem_level = 1\<rparr>,
      \<lparr>elem_text = js ''foo'', elem_id = None, elem_level = 1\<rparr>]"

definition second_run :: "bool heading_scheme list" where
  "second_run = map (\<lambda>h. heading.extend h True) example_headings"

text \<open>
  A heading \<^verbatim>\<open>D\<close> at a given level, the levels 0, 1, 2, 0, and the state of the loop
  after three headings at the levels 0, 1 and 2.
\<close>

definition heading_D :: "nat \<Rightarrow> heading" where
  "heading_D L = \<lparr>elem_text = js ''D'', elem_id = Some (js ''D''), elem_level = L\<rparr>"

definition levels_0120 :: "heading list" where
  "levels_0120 = map heading_D [0, 1, 2, 0]"

definition open_lists :: builder where
  "open_lists =
     \<lparr>tree = [Item (js ''A'') (js ''#A'') [[Item (js ''B'') (js ''#B'') [[Item (js ''C'') (js ''#C'') []]]]]],
      stack = [[(0, 0), (0, 0)], [(0, 0)], []],
      currentLevel = 2\<rparr>"

section \<open>Termination of the search for an unused identifier\<close>

lemma unat_digit: "n < 10 \<Longrightarrow> unat (digit n) = 48 + n"
  unfolding digit_def by (subst unat_of_nat) simp

lemma undecimal_decimal: "undecimal (decimal n) = n"
proof (induction n rule: decimal.induct)
  case (1 n)
  show ?case
  proof (cases "n < 10")
    case True
    then show ?thesis
      by (simp add: decimal.simps [of n] undecimal_def unat_digit)
  next
    case False
    with 1 have "undecimal (decimal (n div 10)) = n div 10" by simp
    with False show ?thesis
      by (simp add: decimal.simps [of n] undecimal_def unat_digit)
  qed
qed

lemma decimal_inj: "decimal m = decimal n \<Longrightarrow> m = n"
  by (metis undecimal_decimal)

lemma decimal_not_Nil: "decimal n \<noteq> []"
  by (simp add: decimal.simps [of n])

lemma finite_candidates: "finite {k. base @ sep @ decimal k \<in> set doc}"
proof -
  have "inj (\<lambda>k. base @ sep @ decimal k)"
    by (auto simp: inj_def dest: decimal_inj)
  then have "finite ((\<lambda>k. base @ sep @ decimal k) -` set doc)"
    by (rule finite_vimageI [OF finite_set])
  then show ?thesis by (simp add: vimage_def)
qed

lemma finite_pending: "finite (pending doc base sep counter)"
  unfolding pending_def by (rule finite_subset [OF _ finite_candidates [of base sep doc]]) auto

lemma pending_Suc:
  "pending doc base sep counter =
     (if base @ sep @ decimal counter \<in> set doc then insert counter (pending doc base sep (Suc counter))
      else pending doc base sep (Suc counter))"
  unfolding pending_def by (auto simp: Suc_le_eq le_less dest: decimal_inj)

lemma count_notin_pending_Suc: "counter \<notin> pending doc base sep (Suc counter)"
  by (simp add: pending_def)

text \<open>
  Each turn of the loop uses up one of the finitely many counters whose candidate is in
  the document.
\<close>

termination find_unused
proof (relation "measure (\<lambda>(doc, base, sep, suffix, counter).
          card (pending doc base sep counter) + (if getElementById doc (base @ suffix) then 1 else 0))")
  show "wf (measure (\<lambda>(doc, base, sep, suffix, counter).
          card (pending doc base sep counter) + (if getElementById doc (base @ suffix) then 1 else 0)))"
    by simp
next
  fix base sep suffix :: jsstring and counter :: nat and doc :: registry
  assume "getElementById doc (base @ suffix)"
  moreover have "card (pending doc base sep (Suc counter))
        + (if getElementById doc (base @ sep @ decimal counter) then 1 else 0)
      \<le> card (pending doc base sep counter)"
    using finite_pending [of doc base sep "Suc counter"] count_notin_pending_Suc [of counter doc base sep]
    by (subst (2) pending_Suc) (auto simp: getElementById_def)
  ultimately show "((doc, base, sep, sep @ decimal counter, Suc counter), (doc, base, sep, suffix, counter))
      \<in> measure (\<lambda>(doc, base, sep, suffix, counter).
          card (pending doc base sep counter) + (if getElementById doc (base @ suffix) then 1 else 0))"
    by simp
qed

declare find_unused.simps [simp del]

section \<open>The base identifier of the example\<close>

lemma sanitise_hello_world: "sanitise (placeholder (js ''Hello World'')) = js ''Hello World''"
  by code_simp

lemma baseId_underscore_hello_world: "baseId Underscore (js ''Hello World'') = js ''Hello_World''"
  by code_simp

lemma baseId_kebab_hello_world: "baseId Kebab (js ''Hello World'') = js ''hello-world''"
  by code_simp

lemma baseId_camel_hello_world: "baseId Camel (js ''Hello World'') = js ''helloWorld''"
  by code_simp

text \<open>Camel case, word by word.\<close>

lemma map2_later_words:
  "map2 (\<lambda>index word. if index = (0::nat) then f word else g word) [Suc k ..< Suc k + length ws] ws
     = map g ws"
proof (induction ws arbitrary: k)
  case Nil
  show ?case by simp
next
  case (Cons w ws)
  have "[Suc k ..< Suc k + length (w # ws)] = Suc k # [Suc (Suc k) ..< Suc (Suc k) + length ws]"
    by (simp add: upt_rec)
  with Cons [of "Suc k"] show ?case by simp
qed

lemma toCamelCase_words:
  "toCamelCase str =
     (case split str of
        [] \<Rightarrow> []
      | w # ws \<Rightarrow> toLowerCase w
          @ concat (map (\<lambda>word. toUpperCase (charAt0 word) @ toLowerCase (slice1 word)) ws))"
proof (cases "split str")
  case Nil
  then show ?thesis by (simp add: toCamelCase_def)
next
  case (Cons w ws)
  have "[0 ..< length (w # ws)] = 0 # [Suc 0 ..< Suc 0 + length ws]"
    by (simp add: upt_rec)
  with Cons map2_later_words [of toLowerCase "\<lambda>word. toUpperCase (charAt0 word) @ toLowerCase (slice1 word)" 0 ws]
  show ?thesis by (simp add: toCamelCase_def)
qed

lemma find_unused_empty: "find_unused [] base sep [] counter = base"
  by (simp add: find_unused.simps [of "[]"] getElementById_def)

lemma sanitise_mixed_case:
  "sanitise (placeholder (js ''HELLO wORLD fOO'')) = js ''HELLO wORLD fOO''"
  by code_simp

lemma baseId_camel_mixed_case: "baseId Camel (js ''HELLO wORLD fOO'') = js ''helloWorldFoo''"
  by code_simp

lemma baseId_kebab_mixed_case: "baseId Kebab (js ''HELLO wORLD fOO'') = js ''hello-world-foo''"
  by code_simp

lemma baseId_underscore_mixed_case:
  "baseId Underscore (js ''HELLO wORLD fOO'') = js ''HELLO_wORLD_fOO''"
  by code_simp

lemma upper_lower_letters:
  "toUpperCase (js ''abcdefghijklmnopqrstuvwxyz'') = js ''ABCDEFGHIJKLMNOPQRSTUVWXYZ''"
  "toLowerCase (js ''ABCDEFGHIJKLMNOPQRSTUVWXYZ'') = js ''abcdefghijklmnopqrstuvwxyz''"
  "toUpperCase (js ''AZ 09_-'') = js ''AZ 09_-''"
  "toLowerCase (js ''az 09_-'') = js ''az 09_-''"
  by code_simp+

text \<open>
  Claim C6. In a document without identifiers, the text \<^verbatim>\<open>Hello World\<close> has the base
  identifier \<^verbatim>\<open>Hello_World\<close> in the default format, \<^verbatim>\<open>hello-world\<close> in kebab case
  and \<^verbatim>\<open>helloWorld\<close> in camel case, and that base is the identifier generated. Camel
  case puts the first word in lower case, gives every later word an upper-case first
  character and a lower-case rest, and joins them without separator: the text
  \<^verbatim>\<open>HELLO wORLD fOO\<close> becomes \<^verbatim>\<open>helloWorldFoo\<close>, where kebab case gives
  \<^verbatim>\<open>hello-world-foo\<close> and the default format keeps the case of every letter. Upper
  and lower case exchange the 26 letters and change no other sanitised character.
\<close>

theorem hello_world_formats:
  "baseId Underscore (sanitise (placeholder (js ''Hello World''))) = js ''Hello_World''
   \<and> baseId Kebab (sanitise (placeholder (js ''Hello World''))) = js ''hello-world''
   \<and> baseId Camel (sanitise (placeholder (js ''Hello World''))) = js ''helloWorld''
   \<and> generateUniqueId Underscore [] (js ''Hello World'') = js ''Hello_World''
   \<and> generateUniqueId Kebab [] (js ''Hello World'') = js ''hello-world''
   \<and> generateUniqueId Camel [] (js ''Hello World'') = js ''helloWorld''
   \<and> baseId Camel str =
       (case split str of
          [] \<Rightarrow> []
        | w # ws \<Rightarrow> toLowerCase w
            @ concat (map (\<lambda>word. toUpperCase (charAt0 word) @ toLowerCase (slice1 word)) ws))
   \<and> generateUniqueId Camel [] (js ''HELLO wORLD fOO'') = js ''helloWorldFoo''
   \<and> generateUniqueId Kebab [] (js ''HELLO wORLD fOO'') = js ''hello-world-foo''
   \<and> generateUniqueId Underscore [] (js ''HELLO wORLD fOO'') = js ''HELLO_wORLD_fOO''
   \<and> toUpperCase (js ''abcdefghijklmnopqrstuvwxyz'') = js ''ABCDEFGHIJKLMNOPQRSTUVWXYZ''
   \<and> toLowerCase (js ''ABCDEFGHIJKLMNOPQRSTUVWXYZ'') = js ''abcdefghijklmnopqrstuvwxyz''
   \<and> toUpperCase (js ''AZ 09_-'') = js ''AZ 09_-''
   \<and> toLowerCase (js ''az 09_-'') = js ''az 09_-''"
proof -
  have "baseId Camel str = toCamelCase str" by simp
  then show ?thesis
    by (simp only: generateUniqueId_def Let_def sanitise_hello_world baseId_underscore_hello_world
          baseId_kebab_hello_world baseId_camel_hello_world find_unused_empty simp_thms
          toCamelCase_words sanitise_mixed_case baseId_camel_mixed_case baseId_kebab_mixed_case
          baseId_underscore_mixed_case upper_lower_letters)
qed

section \<open>The search returns the first candidate that the document does not hold\<close>

lemma find_unused_least:
  "\<exists>k. find_unused doc base sep suffix counter
          = (if k = 0 then base @ suffix else base @ sep @ decimal (counter + k - 1))
       \<and> \<not> getElementById doc (find_unused doc base sep suffix counter)
       \<and> (k \<noteq> 0 \<longrightarrow> getElementById doc (base @ suffix))
       \<and> (\<forall>j. 0 < j \<and> j < k \<longrightarrow> getElementById doc (base @ sep @ decimal (counter + j - 1)))"
proof (induction doc base sep suffix counter rule: find_unused.induct)
  case (1 doc base sep suffix counter)
  show ?case
  proof (cases "getElementById doc (base @ suffix)")
    case False
    then have "find_unused doc base sep suffix counter = base @ suffix"
      by (simp add: find_unused.simps [of doc base sep suffix])
    with False show ?thesis
      by (intro exI [of _ 0]) simp
  next
    case True
    let ?r = "find_unused doc base sep (sep @ decimal counter) (Suc counter)"
    from True have eq: "find_unused doc base sep suffix counter = ?r"
      by (simp add: find_unused.simps [of doc base sep suffix])
    from 1 [OF True] obtain k where k:
      "?r = (if k = 0 then base @ sep @ decimal counter else base @ sep @ decimal (Suc counter + k - 1))"
      "\<not> getElementById doc ?r"
      "k \<noteq> 0 \<longrightarrow> getElementById doc (base @ sep @ decimal counter)"
      "\<forall>j. 0 < j \<and> j < k \<longrightarrow> getElementById doc (base @ sep @ decimal (Suc counter + j - 1))"
      by auto
    have "\<forall>j. 0 < j \<and> j < Suc k \<longrightarrow> getElementById doc (base @ sep @ decimal (counter + j - 1))"
    proof (intro allI impI)
      fix j assume j: "0 < j \<and> j < Suc k"
      show "getElementById doc (base @ sep @ decimal (counter + j - 1))"
      proof (cases "j = 1")
        case True
        with j k(3) show ?thesis by auto
      next
        case False
        with j have "0 < j - 1 \<and> j - 1 < k" by auto
        with k(4) have "getElementById doc (base @ sep @ decimal (Suc counter + (j - 1) - 1))" by blast
        moreover from j False have "Suc counter + (j - 1) - 1 = counter + j - 1" by auto
        ultimately show ?thesis by simp
      qed
    qed
    with k(1,2) True eq show ?thesis
      by (intro exI [of _ "Suc k"]) (auto split: if_splits)
  qed
qed

lemma find_unused_fresh: "\<not> getElementById doc (find_unused doc base sep suffix counter)"
  using find_unused_least [of doc base sep suffix counter] by blast

lemma generateUniqueId_least:
  "\<exists>k. generateUniqueId fmt doc t = candidate fmt (baseId fmt (sanitise (placeholder t))) k
       \<and> \<not> getElementById doc (candidate fmt (baseId fmt (sanitise (placeholder t))) k)
       \<and> (\<forall>j<k. getElementById doc (candidate fmt (baseId fmt (sanitise (placeholder t))) j))"
proof -
  let ?b = "baseId fmt (sanitise (placeholder t))"
  from find_unused_least [of doc ?b "spaceReplacement fmt" "[]" 1]
  obtain k where k:
    "find_unused doc ?b (spaceReplacement fmt) [] 1
       = (if k = 0 then ?b @ [] else ?b @ spaceReplacement fmt @ decimal (1 + k - 1))"
    "\<not> getElementById doc (find_unused doc ?b (spaceReplacement fmt) [] 1)"
    "k \<noteq> 0 \<longrightarrow> getElementById doc (?b @ [])"
    "\<forall>j. 0 < j \<and> j < k \<longrightarrow> getElementById doc (?b @ spaceReplacement fmt @ decimal (1 + j - 1))"
    by blast
  have "\<forall>j<k. getElementById doc (candidate fmt ?b j)"
  proof (intro allI impI)
    fix j assume "j < k"
    with k(3,4) show "getElementById doc (candidate fmt ?b j)"
      by (cases "j = 0") (auto simp: candidate_def)
  qed
  with k(1,2) show ?thesis
    by (intro exI [of _ k]) (auto simp: generateUniqueId_def candidate_def)
qed

lemma generateUniqueId_fresh: "\<not> getElementById doc (generateUniqueId fmt doc t)"
  by (simp add: generateUniqueId_def find_unused_fresh)

lemma generateUniqueId_notin: "generateUniqueId fmt doc t \<noteq> [] \<Longrightarrow> generateUniqueId fmt doc t \<notin> set doc"
  using generateUniqueId_fresh [of doc fmt t] by (simp add: getElementById_def)

section \<open>The document during the pass over the headings\<close>

lemma length_attr_id [simp]: "length (attr_id fmt inside doc n hs) = length hs"
  by (induction hs arbitrary: doc n) auto

lemma doc_after_append:
  "doc_after fmt inside doc n (xs @ ys)
     = doc_after fmt inside (doc_after fmt inside doc n xs) (n + length xs) ys"
  by (induction xs arbitrary: doc n) auto

lemma assign_mono: "set doc \<subseteq> set (snd (assign fmt attached doc h))"
  by (auto simp: assign_def Let_def)

lemma doc_after_mono: "set doc \<subseteq> set (doc_after fmt inside doc n hs)"
proof (induction hs arbitrary: doc n)
  case Nil
  show ?case by simp
next
  case (Cons h hs)
  from assign_mono [of doc fmt "inside n" h] Cons [of "snd (assign fmt (inside n) doc h)" "Suc n"]
  show ?case by auto
qed

lemma doc_after_take_mono:
  assumes "i \<le> j"
  shows "set (doc_after fmt inside doc n (take i hs)) \<subseteq> set (doc_after fmt inside doc n (take j hs))"
proof -
  from assms have "take j hs = take i hs @ take (j - i) (drop i hs)"
    by (metis le_add_diff_inverse take_add)
  then show ?thesis
    by (simp add: doc_after_append doc_after_mono)
qed

lemma attr_id_nth:
  "i < length hs \<Longrightarrow>
     attr_id fmt inside doc n hs ! i
       = (hs ! i)\<lparr>elem_id :=
           Some (fst (assign fmt (inside (n + i)) (doc_after fmt inside doc n (take i hs)) (hs ! i)))\<rparr>"
proof (induction hs arbitrary: doc i n)
  case Nil
  then show ?case by simp
next
  case (Cons h hs)
  then show ?case by (cases i) auto
qed

lemma generated_in_later_doc:
  assumes "j < i" "i \<le> length hs" "\<not> has_id (hs ! j)" "inside (n + j)"
  shows "fst (assign fmt (inside (n + j)) (doc_after fmt inside doc n (take j hs)) (hs ! j))
    \<in> set (doc_after fmt inside doc n (take i hs))"
proof -
  from assms have "take (Suc j) hs = take j hs @ [hs ! j]"
    by (simp add: take_Suc_conv_app_nth)
  moreover from assms have "length (take j hs) = j" by simp
  ultimately have "doc_after fmt inside doc n (take (Suc j) hs)
      = snd (assign fmt (inside (n + j)) (doc_after fmt inside doc n (take j hs)) (hs ! j))"
    by (simp add: doc_after_append)
  with assms(3,4) have "fst (assign fmt (inside (n + j)) (doc_after fmt inside doc n (take j hs)) (hs ! j))
      \<in> set (doc_after fmt inside doc n (take (Suc j) hs))"
    by (simp add: assign_def Let_def)
  with doc_after_take_mono [of "Suc j" i fmt inside doc n hs] assms(1) show ?thesis by auto
qed

lemma existing_in_heading_ids:
  "j < length hs \<Longrightarrow> has_id (hs ! j) \<Longrightarrow> inside (n + j) \<Longrightarrow>
     the (elem_id (hs ! j)) \<in> set (heading_ids inside n hs)"
proof (induction hs arbitrary: j n)
  case Nil
  then show ?case by simp
next
  case (Cons h hs)
  show ?case
  proof (cases j)
    case 0
    with Cons.prems obtain a where "elem_id h = Some a" and "inside n"
      by (auto simp: has_id_def split: option.splits)
    with 0 show ?thesis by (simp add: seen_id_def)
  next
    case (Suc j')
    with Cons.prems have "j' < length hs" "has_id (hs ! j')" "inside (Suc n + j')"
      by simp_all
    then have "the (elem_id (hs ! j')) \<in> set (heading_ids inside (Suc n) hs)"
      by (rule Cons.IH)
    with Suc show ?thesis by simp
  qed
qed

lemma existing_in_document:
  assumes "j < length hs" "has_id (hs ! j)" "inside j"
  shows "the (elem_id (hs ! j)) \<in> set (document_ids inside others hs)"
  using existing_in_heading_ids [of j hs inside 0] assms by (simp add: document_ids_def)

lemma assigned_ids_nth:
  "i < length hs \<Longrightarrow>
     assigned_ids fmt inside others hs ! i
       = fst (assign fmt (inside i)
                (doc_after fmt inside (document_ids inside others hs) 0 (take i hs)) (hs ! i))"
  by (simp add: assigned_ids_def attr_id_nth)

section \<open>The placeholder for an empty text\<close>

text \<open>Sanitised text is ASCII: word characters, hyphens and spaces.\<close>

lemma sanitise_chars: "c \<in> set (sanitise t) \<Longrightarrow> is_word c \<or> c = hyphen \<or> c = space"
proof -
  have "c \<in> set (collapse_spaces t) \<Longrightarrow> is_space c \<Longrightarrow> c = space" for t
  proof (induction t rule: collapse_spaces.induct)
    case 1
    then show ?case by simp
  next
    case (2 d ds)
    then show ?case by (auto split: if_splits)
  qed
  then show "c \<in> set (sanitise t) \<Longrightarrow> is_word c \<or> c = hyphen \<or> c = space"
    by (auto simp: sanitise_def allowed_def)
qed

lemma sanitise_question_mark: "sanitise (js ''?'') = []"
  by code_simp

lemma baseId_Nil: "baseId fmt [] = []"
  by (cases fmt) (simp_all add: replace_spaces_def toLowerCase_def toCamelCase_def)

lemma generateUniqueId_empty_base:
  "baseId fmt (sanitise (placeholder t)) = [] \<Longrightarrow> generateUniqueId fmt doc t = []"
  by (simp add: generateUniqueId_def find_unused.simps [of doc "[]"] getElementById_def)

text \<open>
  Claim C1 at the heading with the empty text, in any format and any document. Lines 82
  to 84 put the placeholder \<^verbatim>\<open>?\<close> in its place, and line 87 removes it again, since
  \<^verbatim>\<open>?\<close> is none of the characters that the second replacement keeps: the base
  identifier is empty and so is the identifier generated, where the claim has \<^verbatim>\<open>?\<close>.
  The placeholder changes the sanitised text of no heading.
\<close>

theorem placeholder_is_stripped:
  "placeholder [] = js ''?''
   \<and> sanitise (placeholder []) = []
   \<and> baseId fmt (sanitise (placeholder [])) = []
   \<and> generateUniqueId fmt doc [] = []
   \<and> generateUniqueId fmt doc [] \<noteq> js ''?''
   \<and> sanitise (placeholder t) = sanitise t"
proof -
  have p: "placeholder [] = js ''?''" by (simp add: placeholder_def)
  have s: "sanitise (placeholder []) = []" by (simp only: p sanitise_question_mark)
  have b: "baseId fmt (sanitise (placeholder [])) = []" by (simp only: s baseId_Nil)
  have g: "generateUniqueId fmt doc [] = []" by (rule generateUniqueId_empty_base [OF b])
  have q: "js ''?'' \<noteq> []" by (simp add: js_def)
  have e: "sanitise [] = []" by (simp add: sanitise_def)
  have t: "sanitise (placeholder t) = sanitise t"
  proof (cases "t = []")
    case True
    with s e show ?thesis by simp
  next
    case False
    then show ?thesis by (simp add: placeholder_def)
  qed
  from p s b g q t show ?thesis by simp
qed

text \<open>
  A text of white space only is not empty, so it gets no placeholder either: it is
  sanitised to one space and its base identifier is the space replacement of the format.
\<close>

lemma collapse_all_space:
  assumes "t \<noteq> []" "\<forall>c\<in>set t. is_space c"
  shows "collapse_spaces t = [space]"
proof -
  from assms obtain c cs where t: "t = c # cs" by (cases t) auto
  with assms have c: "is_space c" and d: "dropWhile is_space cs = []"
    by (simp_all add: dropWhile_eq_Nil_conv)
  show ?thesis by (simp add: t c d)
qed

lemma is_space_space: "is_space space"
  by (simp add: is_space_def space_def)

lemma allowed_space: "allowed space"
  by (simp add: allowed_def is_space_space)

lemma baseId_space: "baseId fmt [space] = spaceReplacement fmt"
proof (cases fmt)
  case Underscore
  then show ?thesis by (simp add: replace_spaces_def is_space_space)
next
  case Kebab
  then show ?thesis
    by (simp add: replace_spaces_def is_space_space toLowerCase_def lower_unit_def hyphen_def)
next
  case Camel
  have "split [space] = [[], []]" by simp
  with Camel show ?thesis
    by (simp add: toCamelCase_def toLowerCase_def toUpperCase_def charAt0_def slice1_def)
qed

lemma whitespace_text_no_placeholder:
  assumes "t \<noteq> []" and "\<forall>c\<in>set t. is_space c"
  shows "baseId fmt (sanitise (placeholder t)) = spaceReplacement fmt"
proof -
  from assms(1) have "placeholder t = t" by (simp add: placeholder_def)
  moreover from assms have "sanitise t = [space]"
    by (simp add: sanitise_def collapse_all_space allowed_space)
  ultimately show ?thesis by (simp add: baseId_space)
qed

section \<open>The identifiers of a run\<close>

lemma assigned_existing:
  assumes "i < length hs" "has_id (hs ! i)"
  shows "assigned_ids fmt inside others hs ! i = the (elem_id (hs ! i))"
  using assms by (simp add: assigned_ids_nth assign_def)

lemma assigned_generated:
  assumes "i < length hs" "\<not> has_id (hs ! i)"
  shows "assigned_ids fmt inside others hs ! i
    = generateUniqueId fmt (doc_after fmt inside (document_ids inside others hs) 0 (take i hs))
        (elem_text (hs ! i))"
  using assms by (simp add: assigned_ids_nth assign_def Let_def)

text \<open>
  The document read is the live one: the call for a heading sees the identifier returned
  for every earlier heading that is inside the document.
\<close>

lemma assigned_in_later_doc:
  assumes "j < i" "i \<le> length hs" "inside j"
  shows "assigned_ids fmt inside others hs ! j
    \<in> set (doc_after fmt inside (document_ids inside others hs) 0 (take i hs))"
proof (cases "has_id (hs ! j)")
  case True
  with assms have "assigned_ids fmt inside others hs ! j \<in> set (document_ids inside others hs)"
    by (simp add: assigned_existing existing_in_document)
  with doc_after_mono [of "document_ids inside others hs" fmt inside 0 "take i hs"]
  show ?thesis by auto
next
  case False
  with assms generated_in_later_doc [of j i hs inside 0 fmt "document_ids inside others hs"]
  show ?thesis
    by (simp add: assigned_ids_nth)
qed

text \<open>
  Claim C5, as the code has it. An identifier that is generated and not empty differs
  from every identifier that the document searched held before the run, those of the
  headings inside it included, and from the identifier returned for any other heading
  when both headings are inside that document. Identifiers that headings carry already
  are returned as they are, so two of them may be equal, and a heading outside the
  document searched is not seen by the lookup.
\<close>

theorem generated_id_unique:
  assumes "i < length hs" and "\<not> has_id (hs ! i)"
    and "assigned_ids fmt inside others hs ! i \<noteq> []"
  shows "assigned_ids fmt inside others hs ! i \<notin> set (document_ids inside others hs)
    \<and> (\<forall>j<length hs. j \<noteq> i \<and> inside i \<and> inside j
          \<longrightarrow> assigned_ids fmt inside others hs ! j \<noteq> assigned_ids fmt inside others hs ! i)"
proof -
  let ?D = "\<lambda>k. doc_after fmt inside (document_ids inside others hs) 0 (take k hs)"
  let ?ids = "assigned_ids fmt inside others hs"
  from assms have fresh: "?ids ! i \<notin> set (?D i)"
    using generateUniqueId_notin [of fmt "?D i" "elem_text (hs ! i)"]
    by (simp add: assigned_generated)
  with doc_after_mono [of "document_ids inside others hs" fmt inside 0 "take i hs"]
  have initial: "?ids ! i \<notin> set (document_ids inside others hs)" by auto
  have "?ids ! j \<noteq> ?ids ! i" if j: "j < length hs" "j \<noteq> i" "inside i" "inside j" for j
  proof (cases "j < i")
    case True
    with assms(1) j(4) have "?ids ! j \<in> set (?D i)"
      by (simp add: assigned_in_later_doc)
    with fresh show ?thesis by auto
  next
    case False
    with j have ij: "i < j" by simp
    with j have later: "?ids ! i \<in> set (?D j)"
      by (simp add: assigned_in_later_doc)
    show ?thesis
    proof (cases "has_id (hs ! j)")
      case True
      with j have "?ids ! j \<in> set (document_ids inside others hs)"
        by (simp add: assigned_existing existing_in_document)
      with initial show ?thesis by auto
    next
      case False
      with j have "\<not> getElementById (?D j) (?ids ! j)"
        by (simp add: assigned_generated generateUniqueId_fresh)
      with later assms(3) show ?thesis
        by (auto simp: getElementById_def)
    qed
  qed
  with initial show ?thesis by blast
qed

lemma example_ids:
  "assigned_ids Underscore (\<lambda>_. True) [js ''foo_1''] example_headings
     = [js ''foo_2'', js ''foo'', js ''foo_3'']"
  by code_simp

lemma example_doc:
  "document_ids (\<lambda>_. True) [js ''foo_1''] example_headings = [js ''foo_1'', js ''foo'']"
  by code_simp

text \<open>
  The first of the example headings, all of them inside a document that holds
  \<^verbatim>\<open>foo_1\<close> as well.
\<close>

theorem generated_id_unique_witness:
  "assigned_ids Underscore (\<lambda>_. True) [js ''foo_1''] example_headings ! 0 = js ''foo_2''
   \<and> js ''foo_2'' \<notin> set [js ''foo_1'', js ''foo'']
   \<and> assigned_ids Underscore (\<lambda>_. True) [js ''foo_1''] example_headings ! 1 \<noteq> js ''foo_2''
   \<and> assigned_ids Underscore (\<lambda>_. True) [js ''foo_1''] example_headings ! 2 \<noteq> js ''foo_2''"
proof -
  have a: "0 < length example_headings" by (simp add: example_headings_def)
  have b: "\<not> has_id (example_headings ! 0)" by (simp add: example_headings_def has_id_def)
  have c: "assigned_ids Underscore (\<lambda>_. True) [js ''foo_1''] example_headings ! 0 = js ''foo_2''"
    by (simp add: example_ids)
  have d: "assigned_ids Underscore (\<lambda>_. True) [js ''foo_1''] example_headings ! 0 \<noteq> []"
    unfolding c by (simp add: js_def)
  have l: "length example_headings = 3" by (simp add: example_headings_def)
  from generated_id_unique [OF a b d]
  have "assigned_ids Underscore (\<lambda>_. True) [js ''foo_1''] example_headings ! 0
        \<notin> set (document_ids (\<lambda>_. True) [js ''foo_1''] example_headings)"
    and "\<forall>j<length example_headings. j \<noteq> 0 \<and> True \<and> True \<longrightarrow>
           assigned_ids Underscore (\<lambda>_. True) [js ''foo_1''] example_headings ! j
           \<noteq> assigned_ids Underscore (\<lambda>_. True) [js ''foo_1''] example_headings ! 0"
    by blast+
  then show ?thesis
    by (simp add: c l example_doc)
qed

text \<open>
  Claim C5 as stated fails in three ways. Two headings that carry the same identifier
  both get it back. Two headings outside the document searched, with the same text, are
  given the same identifier, since the lookup sees neither. Two headings with the empty
  text are both given the empty identifier, which the lookup never finds.
\<close>

theorem equal_ids_counterexample:
  "assigned_ids Underscore (\<lambda>_. True) []
     [\<lparr>elem_text = js ''A'', elem_id = Some (js ''a''), elem_level = 0\<rparr>,
      \<lparr>elem_text = js ''B'', elem_id = Some (js ''a''), elem_level = 0\<rparr>]
   = [js ''a'', js ''a'']
   \<and> assigned_ids Underscore (\<lambda>_. False) []
     [\<lparr>elem_text = js ''a'', elem_id = None, elem_level = 0\<rparr>,
      \<lparr>elem_text = js ''a'', elem_id = None, elem_level = 0\<rparr>]
   = [js ''a'', js ''a'']
   \<and> assigned_ids Underscore (\<lambda>_. True) []
     [\<lparr>elem_text = [], elem_id = None, elem_level = 0\<rparr>,
      \<lparr>elem_text = [], elem_id = None, elem_level = 0\<rparr>]
   = [[], []]"
  by code_simp

text \<open>
  Claim C2 at two headings whose texts are sanitised to the empty string, inside the
  document searched or not. The first is assigned the empty identifier; the lookup of
  the empty string finds no element, so the second is assigned the empty identifier
  again, although it was assigned in the same run. Lemma \<open>generateUniqueId_least\<close> is
  the order of the search that the claim describes, and lemma \<open>assigned_in_later_doc\<close>
  that the document read is the live one.
\<close>

theorem empty_id_assigned_twice:
  "assigned_ids Underscore inside []
     [\<lparr>elem_text = js ''?'', elem_id = None, elem_level = 0\<rparr>,
      \<lparr>elem_text = js ''!'', elem_id = None, elem_level = 0\<rparr>]
   = [[], []]"
proof -
  have "baseId Underscore (sanitise (placeholder (js ''?''))) = []" by code_simp
  then have a: "generateUniqueId Underscore doc (js ''?'') = []" for doc
    by (rule generateUniqueId_empty_base)
  have "baseId Underscore (sanitise (placeholder (js ''!''))) = []" by code_simp
  then have b: "generateUniqueId Underscore doc (js ''!'') = []" for doc
    by (rule generateUniqueId_empty_base)
  show ?thesis
    by (simp add: assigned_ids_def document_ids_def assign_def has_id_def Let_def a b)
qed

text \<open>
  Claim C7, as the code has it. A heading that carries an identifier which is not empty
  gets it back unchanged, whatever the document holds, and what the lookup reads stays
  as it is. When that heading is inside the document searched, a heading without
  identifier whose base identifier equals the one carried is assigned that base with a
  separator and a counter from 1.
\<close>

theorem existing_id_passthrough:
  assumes "i < length hs" and "has_id (hs ! i)"
  shows "assign fmt attached doc (hs ! i) = (the (elem_id (hs ! i)), doc)
    \<and> assigned_ids fmt inside others hs ! i = the (elem_id (hs ! i))
    \<and> (inside i \<longrightarrow>
         (\<forall>j<length hs. \<not> has_id (hs ! j)
              \<and> baseId fmt (sanitise (placeholder (elem_text (hs ! j)))) = the (elem_id (hs ! i))
            \<longrightarrow> (\<exists>k\<ge>1. assigned_ids fmt inside others hs ! j
                   = the (elem_id (hs ! i)) @ spaceReplacement fmt @ decimal k)))"
proof -
  let ?a = "the (elem_id (hs ! i))"
  let ?D = "\<lambda>k. doc_after fmt inside (document_ids inside others hs) 0 (take k hs)"
  from assms(2) have ne: "?a \<noteq> []"
    by (auto simp: has_id_def split: option.splits)
  have "\<exists>k\<ge>1. assigned_ids fmt inside others hs ! j = ?a @ spaceReplacement fmt @ decimal k"
    if j: "j < length hs" "\<not> has_id (hs ! j)"
      "baseId fmt (sanitise (placeholder (elem_text (hs ! j)))) = ?a" and ins: "inside i" for j
  proof -
    from assms ins existing_in_document [of i hs inside others]
      doc_after_mono [of "document_ids inside others hs" fmt inside 0 "take j hs"]
    have "?a \<in> set (?D j)" by auto
    with ne have found: "getElementById (?D j) ?a"
      by (simp add: getElementById_def)
    from generateUniqueId_least [of fmt "?D j" "elem_text (hs ! j)"] j(3)
    obtain k where k: "generateUniqueId fmt (?D j) (elem_text (hs ! j)) = candidate fmt ?a k"
      "\<not> getElementById (?D j) (candidate fmt ?a k)"
      by auto
    from k(2) found have "k \<noteq> 0" by (cases "k = 0") (simp_all add: candidate_def)
    with k(1) j(1,2) show ?thesis
      by (intro exI [of _ k]) (simp add: assigned_generated candidate_def)
  qed
  with assms show ?thesis
    by (simp add: assign_def assigned_existing)
qed

text \<open>The second example heading carries \<^verbatim>\<open>foo\<close>; the first one generates it.\<close>

theorem existing_id_passthrough_witness:
  "assign Underscore False [] (example_headings ! 1) = (js ''foo'', [])
   \<and> assigned_ids Underscore (\<lambda>_. True) [js ''foo_1''] example_headings ! 1 = js ''foo''
   \<and> assigned_ids Underscore (\<lambda>_. True) [js ''foo_1''] example_headings ! 0 = js ''foo_2''
   \<and> (\<exists>k\<ge>1. assigned_ids Underscore (\<lambda>_. True) [js ''foo_1''] example_headings ! 0
         = js ''foo'' @ spaceReplacement Underscore @ decimal k)"
proof -
  have a: "1 < length example_headings" by (simp add: example_headings_def)
  have b: "has_id (example_headings ! 1)" by (simp add: example_headings_def has_id_def js_def)
  have e: "the (elem_id (example_headings ! 1)) = js ''foo''" by (simp add: example_headings_def)
  have c: "0 < length example_headings \<and> \<not> has_id (example_headings ! 0)
     \<and> baseId Underscore (sanitise (placeholder (elem_text (example_headings ! 0)))) = js ''foo''"
    by code_simp
  from existing_id_passthrough [OF a b, of Underscore False "[]" "\<lambda>_. True" "[js ''foo_1'']"]
  have p: "assign Underscore False [] (example_headings ! 1)
      = (the (elem_id (example_headings ! 1)), [])"
    and q: "assigned_ids Underscore (\<lambda>_. True) [js ''foo_1''] example_headings ! 1
      = the (elem_id (example_headings ! 1))"
    and r: "\<forall>j<length example_headings. \<not> has_id (example_headings ! j)
          \<and> baseId Underscore (sanitise (placeholder (elem_text (example_headings ! j))))
            = the (elem_id (example_headings ! 1))
        \<longrightarrow> (\<exists>k\<ge>1. assigned_ids Underscore (\<lambda>_. True) [js ''foo_1''] example_headings ! j
               = the (elem_id (example_headings ! 1)) @ spaceReplacement Underscore @ decimal k)"
    by blast+
  from r c have "\<exists>k\<ge>1. assigned_ids Underscore (\<lambda>_. True) [js ''foo_1''] example_headings ! 0
         = js ''foo'' @ spaceReplacement Underscore @ decimal k"
    unfolding e by blast
  moreover have "assigned_ids Underscore (\<lambda>_. True) [js ''foo_1''] example_headings ! 0 = js ''foo_2''"
    by (simp add: example_ids)
  ultimately show ?thesis
    using p q unfolding e by blast
qed

text \<open>
  Claim C7 as stated fails for headings outside the document searched: the first carries
  \<^verbatim>\<open>foo\<close>, the lookup does not see it, and the second is given \<^verbatim>\<open>foo\<close> without a
  suffix.
\<close>

theorem unseen_carrier_counterexample:
  "assigned_ids Underscore (\<lambda>_. False) []
     [\<lparr>elem_text = js ''bar'', elem_id = Some (js ''foo''), elem_level = 0\<rparr>,
      \<lparr>elem_text = js ''foo'', elem_id = None, elem_level = 0\<rparr>]
   = [js ''foo'', js ''foo'']"
  by code_simp

section \<open>References into the outline\<close>

lemma list_at_append:
  "list_at (p @ q) t = (case list_at p t of None \<Rightarrow> None | Some l \<Rightarrow> list_at q l)"
  by (induction p t rule: list_at.induct) auto

lemma modify_at_defined:
  "list_at p t = Some l \<Longrightarrow> \<exists>t'. modify_at p f t = Some t' \<and> list_at p t' = Some (f l)"
proof (induction p t rule: list_at.induct)
  case (1 l0)
  then show ?case by simp
next
  case (2 i j p l0)
  from "2.prems" have ij: "i < length l0 \<and> j < length (item_lists (l0 ! i))"
    and sub: "list_at p (item_lists (l0 ! i) ! j) = Some l"
    by (auto split: if_splits)
  from "2.IH" [OF ij sub] obtain l' where l':
    "modify_at p f (item_lists (l0 ! i) ! j) = Some l'" "list_at p l' = Some (f l)"
    by blast
  with ij show ?case by simp
qed

lemma modify_at_keeps:
  "grows f \<Longrightarrow> modify_at p f t = Some t' \<Longrightarrow> list_at q t \<noteq> None \<Longrightarrow> list_at q t' \<noteq> None"
proof (induction p f t arbitrary: t' q rule: modify_at.induct)
  case (1 f l)
  then show ?case unfolding grows_def by auto
next
  case (2 i j p f l)
  from "2.prems"(2) have ij: "i < length l \<and> j < length (item_lists (l ! i))"
    by (auto split: if_splits)
  with "2.prems"(2) obtain l' where l': "modify_at p f (item_lists (l ! i) ! j) = Some l'"
    and t': "t' = l[i := Item (item_text (l ! i)) (item_href (l ! i)) ((item_lists (l ! i))[j := l'])]"
    by (auto split: option.splits)
  show ?case
  proof (cases q)
    case Nil
    then show ?thesis by simp
  next
    case (Cons a q')
    obtain i' j' where a: "a = (i', j')" by (cases a)
    from "2.prems"(3) Cons a have v: "i' < length l" "j' < length (item_lists (l ! i'))"
      "list_at q' (item_lists (l ! i') ! j') \<noteq> None"
      by (auto split: if_splits)
    show ?thesis
    proof (cases "i' = i \<and> j' = j")
      case True
      with v(3) "2.IH" [OF ij "2.prems"(1) l'] have "list_at q' l' \<noteq> None" by blast
      with True ij Cons a t' show ?thesis by simp
    next
      case False
      with v ij Cons a t' show ?thesis
        by (cases "i' = i") auto
    qed
  qed
qed

lemma grows_append: "grows (\<lambda>l. l @ [li])"
proof -
  have "list_at q (l @ [li]) \<noteq> None" if "list_at q l \<noteq> None" for q l
  proof (cases q)
    case Nil
    then show ?thesis by simp
  next
    case (Cons a q')
    obtain i j where "a = (i, j)" by (cases a)
    with that Cons show ?thesis
      by (auto simp: nth_append split: if_splits)
  qed
  then show ?thesis by (simp add: grows_def)
qed

lemma grows_appendTo_item: "grows appendTo_item"
proof -
  have "list_at q (appendTo_item l) \<noteq> None" if "list_at q l \<noteq> None" for q l
  proof (cases q)
    case Nil
    then show ?thesis by simp
  next
    case (Cons a q')
    obtain i j where a: "a = (i, j)" by (cases a)
    with that Cons have v: "i < length l" "j < length (item_lists (l ! i))"
      "list_at q' (item_lists (l ! i) ! j) \<noteq> None"
      by (auto split: if_splits)
    then have "l \<noteq> []" by auto
    with v Cons a show ?thesis
      by (cases "i = length l - 1") (auto simp: appendTo_item_def nth_append last_conv_nth)
  qed
  then show ?thesis by (simp add: grows_def)
qed

lemma sum_list_map_update:
  fixes g :: "'a \<Rightarrow> 'b::comm_monoid_add"
  shows "i < length xs \<Longrightarrow> sum_list (map g (xs[i := y])) + g (xs ! i) = sum_list (map g xs) + g y"
proof (induction xs arbitrary: i)
  case Nil
  then show ?case by simp
next
  case (Cons x xs)
  then show ?case by (cases i) (auto simp: ac_simps)
qed

lemma item_entries_eq:
  "item_entries li = {#(item_text li, item_href li)#} + sum_list (map entries (item_lists li))"
  by (cases li) (simp add: entries_def [abs_def])

lemma entries_modify:
  "modify_at p f t = Some t' \<Longrightarrow> list_at p t = Some l \<Longrightarrow>
     entries t' + entries l = entries t + entries (f l)"
proof (induction p f t arbitrary: t' rule: modify_at.induct)
  case (1 f l0)
  then show ?case by simp
next
  case (2 i j p f l0)
  from "2.prems"(1) have ij: "i < length l0 \<and> j < length (item_lists (l0 ! i))"
    by (auto split: if_splits)
  with "2.prems"(1) obtain l' where l': "modify_at p f (item_lists (l0 ! i) ! j) = Some l'"
    and t': "t' = l0[i := Item (item_text (l0 ! i)) (item_href (l0 ! i)) ((item_lists (l0 ! i))[j := l'])]"
    by (auto split: option.splits)
  from "2.prems"(2) ij have sub: "list_at p (item_lists (l0 ! i) ! j) = Some l" by simp
  let ?ls = "item_lists (l0 ! i)"
  let ?X = "Item (item_text (l0 ! i)) (item_href (l0 ! i)) (?ls[j := l'])"
  from "2.IH" [OF ij l' sub]
  have a: "entries l' + entries l = entries (?ls ! j) + entries (f l)" .
  from ij sum_list_map_update [of j ?ls entries l']
  have b: "sum_list (map entries (?ls[j := l'])) + entries (?ls ! j)
      = sum_list (map entries ?ls) + entries l'" by simp
  have c: "item_entries ?X + entries (?ls ! j) = item_entries (l0 ! i) + entries l'"
    using b by (simp only: item_entries_eq [of "l0 ! i"] item_entries_eq [of ?X] item.sel add.assoc)
  from ij sum_list_map_update [of i l0 item_entries ?X]
  have d: "entries t' + item_entries (l0 ! i) = entries l0 + item_entries ?X"
    by (simp add: t' entries_def)
  show ?case
  proof (rule multiset_eqI)
    fix x
    from a have "count (entries l') x + count (entries l) x
        = count (entries (?ls ! j)) x + count (entries (f l)) x"
      by (simp only: count_union [symmetric])
    moreover from c have "count (item_entries ?X) x + count (entries (?ls ! j)) x
        = count (item_entries (l0 ! i)) x + count (entries l') x"
      by (simp only: count_union [symmetric])
    moreover from d have "count (entries t') x + count (item_entries (l0 ! i)) x
        = count (entries l0) x + count (item_entries ?X) x"
      by (simp only: count_union [symmetric])
    ultimately show "count (entries t' + entries l) x = count (entries l0 + entries (f l)) x"
      unfolding count_union by linarith
  qed
qed

lemma entries_snoc: "entries (l @ [li]) = entries l + item_entries li"
  by (simp add: entries_def)

lemma entries_appendTo_item: "entries (appendTo_item l) = entries l"
proof (cases l rule: rev_cases)
  case Nil
  then show ?thesis by (simp add: appendTo_item_def)
next
  case (snoc xs x)
  have "item_entries (Item (item_text x) (item_href x) (item_lists x @ [[]])) = item_entries x"
    by (simp only: item_entries_eq [of x] item_entries_eq [of "Item (item_text x) (item_href x) (item_lists x @ [[]])"] item.sel)
      (simp add: entries_def)
  with snoc show ?thesis
    by (simp add: appendTo_item_def entries_def)
qed

section \<open>One step of the outline builder\<close>

lemma modify_at_append:
  "modify_at (p @ q) f t =
     (case list_at p t of
        None \<Rightarrow> None
      | Some l \<Rightarrow> (case modify_at q f l of None \<Rightarrow> None | Some l' \<Rightarrow> modify_at p (\<lambda>_. l') t))"
proof (induction p t rule: list_at.induct)
  case (1 l)
  show ?case by (simp split: option.splits)
next
  case (2 i j p l)
  then show ?case by (auto split: option.splits)
qed

lemma modify_at_compose:
  "modify_at p f t = Some t1 \<Longrightarrow> modify_at p g t1 = modify_at p (\<lambda>l. g (f l)) t"
proof (induction p f t arbitrary: t1 rule: modify_at.induct)
  case (1 f l)
  then show ?case by auto
next
  case (2 i j p f l)
  from "2.prems" have ij: "i < length l \<and> j < length (item_lists (l ! i))"
    by (auto split: if_splits)
  with "2.prems" obtain l' where l': "modify_at p f (item_lists (l ! i) ! j) = Some l'"
    and t1: "t1 = l[i := Item (item_text (l ! i)) (item_href (l ! i)) ((item_lists (l ! i))[j := l'])]"
    by (auto split: option.splits)
  from "2.IH" [OF ij l']
  have "modify_at p g l' = modify_at p (\<lambda>l. g (f l)) (item_lists (l ! i) ! j)" .
  with ij show ?case
    by (simp add: t1 split: option.splits)
qed

lemma splice_count:
  "L \<le> cur \<Longrightarrow> nat (min (int cur - int L) (max (int n - 1) 0)) = min (cur - L) (n - 1)"
  by (cases n) (auto simp: min_def max_def)

lemma descend_empty:
  assumes "stack st = tp # rest" and "list_at tp (tree st) = Some []"
  shows "descend st = Inr st"
  using assms by (simp add: descend_def)

lemma descend_push:
  assumes "stack st = tp # rest" and "list_at tp (tree st) = Some l" and "l \<noteq> []"
  shows "\<exists>t. modify_at tp appendTo_item (tree st) = Some t
      \<and> list_at tp t = Some (appendTo_item l)
      \<and> descend st = Inr (st\<lparr>tree := t,
           stack := (tp @ [(length l - 1, length (item_lists (last l)))]) # stack st\<rparr>)"
proof -
  from modify_at_defined [OF assms(2), of appendTo_item] obtain t where
    t: "modify_at tp appendTo_item (tree st) = Some t" "list_at tp t = Some (appendTo_item l)"
    by blast
  with assms show ?thesis by (simp add: descend_def)
qed

lemma appendTo_list_top:
  assumes "stack st = tp # rest" and "list_at tp (tree st) = Some l"
  shows "\<exists>t. modify_at tp (\<lambda>l. l @ [li]) (tree st) = Some t
      \<and> list_at tp t = Some (l @ [li])
      \<and> appendTo_list st li = Inr (st\<lparr>tree := t\<rparr>)"
proof -
  from modify_at_defined [OF assms(2), of "\<lambda>l. l @ [li]"] obtain t where
    "modify_at tp (\<lambda>l. l @ [li]) (tree st) = Some t" "list_at tp t = Some (l @ [li])"
    by blast
  with assms show ?thesis by (simp add: appendTo_list_def)
qed

lemma appendTo_item_snoc:
  "appendTo_item (xs @ [x]) = xs @ [Item (item_text x) (item_href x) (item_lists x @ [[]])]"
  by (simp add: appendTo_item_def)

lemma list_at_new_list:
  assumes "l \<noteq> []"
  shows "list_at [(length l - 1, length (item_lists (last l)))] (appendTo_item l) = Some []"
proof -
  from assms obtain xs x where "l = xs @ [x]" by (cases l rule: rev_cases) auto
  then show ?thesis by (simp add: appendTo_item_snoc)
qed

lemma modify_new_list:
  assumes "l \<noteq> []"
  shows "modify_at [(length l - 1, length (item_lists (last l)))] (\<lambda>l. l @ [li]) (appendTo_item l)
    = Some (butlast l @ [Item (item_text (last l)) (item_href (last l)) (item_lists (last l) @ [[li]])])"
proof -
  from assms obtain xs x where "l = xs @ [x]" by (cases l rule: rev_cases) auto
  then show ?thesis by (simp add: appendTo_item_snoc)
qed

section \<open>The invariant of the outline builder\<close>

lemma descend_valid:
  assumes "valid_refs st"
  shows "\<exists>st1. descend st = Inr st1 \<and> valid_refs st1
      \<and> (stack st1 = stack st \<or> (\<exists>p. stack st1 = p # stack st))
      \<and> entries (tree st1) = entries (tree st) \<and> currentLevel st1 = currentLevel st"
proof -
  from assms obtain tp rest where s: "stack st = tp # rest"
    by (cases "stack st") (auto simp: valid_refs_def)
  with assms obtain l where l: "list_at tp (tree st) = Some l"
    by (auto simp: valid_refs_def)
  show ?thesis
  proof (cases "l = []")
    case True
    with s l assms show ?thesis by (simp add: descend_empty)
  next
    case False
    let ?np = "tp @ [(length l - 1, length (item_lists (last l)))]"
    from descend_push [OF s l False] obtain t where
      t: "modify_at tp appendTo_item (tree st) = Some t" "list_at tp t = Some (appendTo_item l)"
      "descend st = Inr (st\<lparr>tree := t, stack := ?np # stack st\<rparr>)"
      by blast
    have new: "list_at ?np t = Some []"
      by (simp only: list_at_append t(2) option.case list_at_new_list [OF False])
    from assms have "\<forall>p\<in>set (stack st). list_at p t \<noteq> None"
      using modify_at_keeps [OF grows_appendTo_item t(1)] by (auto simp: valid_refs_def)
    with new have w: "valid_refs (st\<lparr>tree := t, stack := ?np # stack st\<rparr>)"
      by (simp add: valid_refs_def)
    from entries_modify [OF t(1) l] have "entries t = entries (tree st)"
      by (simp add: entries_appendTo_item)
    with t(3) w show ?thesis by simp
  qed
qed

lemma ascend_valid:
  assumes "valid_refs st" and "L \<le> currentLevel st"
  shows "valid_refs (ascend st L) \<and> length (stack (ascend st L)) \<le> length (stack st)
      \<and> last (stack (ascend st L)) = last (stack st) \<and> tree (ascend st L) = tree st"
proof -
  let ?n = "min (currentLevel st - L) (length (stack st) - 1)"
  from assms(2) have s: "stack (ascend st L) = drop ?n (stack st)"
    by (simp add: ascend_def splice0_def splice_count)
  from assms(1) have "0 < length (stack st)" by (simp add: valid_refs_def)
  then have n: "?n < length (stack st)" by (simp add: min_less_iff_disj)
  then have "drop ?n (stack st) \<noteq> []" by (simp only: drop_eq_Nil not_le)
  moreover have "set (drop ?n (stack st)) \<subseteq> set (stack st)" by (rule set_drop_subset)
  ultimately have "valid_refs (ascend st L)"
    using assms(1) s by (auto simp: valid_refs_def ascend_def)
  moreover from n have "last (drop ?n (stack st)) = last (stack st)" by (rule last_drop)
  ultimately show ?thesis using s by (simp add: ascend_def)
qed

lemma appendTo_list_valid:
  assumes "valid_refs st"
  shows "\<exists>st2. appendTo_list st li = Inr st2 \<and> valid_refs st2 \<and> stack st2 = stack st
      \<and> entries (tree st2) = entries (tree st) + item_entries li
      \<and> currentLevel st2 = currentLevel st"
proof -
  from assms obtain tp rest where s: "stack st = tp # rest"
    by (cases "stack st") (auto simp: valid_refs_def)
  with assms obtain l where l: "list_at tp (tree st) = Some l"
    by (auto simp: valid_refs_def)
  from appendTo_list_top [OF s l, of li] obtain t where
    t: "modify_at tp (\<lambda>l. l @ [li]) (tree st) = Some t" "appendTo_list st li = Inr (st\<lparr>tree := t\<rparr>)"
    by blast
  from assms have "valid_refs (st\<lparr>tree := t\<rparr>)"
    using modify_at_keeps [OF grows_append t(1)] by (auto simp: valid_refs_def)
  moreover from entries_modify [OF t(1) l] have "entries t = entries (tree st) + item_entries li"
    by (simp add: entries_snoc)
  ultimately show ?thesis using t(2) by simp
qed

lemma process_valid:
  assumes "valid_refs st"
  shows "\<exists>st'. process st h = Inr st' \<and> valid_refs st'
      \<and> length (stack st') \<le> Suc (length (stack st))
      \<and> last (stack st') = last (stack st)
      \<and> entries (tree st') = entries (tree st) + item_entries (list_item h)
      \<and> currentLevel st' = elem_level h"
proof -
  let ?adjust = "if currentLevel st < elem_level h then descend st else Inr (ascend st (elem_level h))"
  from assms have ne: "stack st \<noteq> []" by (simp add: valid_refs_def)
  have "\<exists>st1. ?adjust = Inr st1 \<and> valid_refs st1 \<and> length (stack st1) \<le> Suc (length (stack st))
      \<and> last (stack st1) = last (stack st) \<and> entries (tree st1) = entries (tree st)"
  proof (cases "currentLevel st < elem_level h")
    case True
    with descend_valid [OF assms] ne show ?thesis by auto
  next
    case False
    with ascend_valid [OF assms, of "elem_level h"] show ?thesis by auto
  qed
  then obtain st1 where st1: "?adjust = Inr st1" "valid_refs st1"
    "length (stack st1) \<le> Suc (length (stack st))" "entries (tree st1) = entries (tree st)"
    "last (stack st1) = last (stack st)"
    by blast
  from appendTo_list_valid [OF st1(2), of "list_item h"] obtain st2 where
    st2: "appendTo_list st1 (list_item h) = Inr st2" "valid_refs st2" "stack st2 = stack st1"
    "entries (tree st2) = entries (tree st1) + item_entries (list_item h)"
    by blast
  from st1(1) st2(1) have "process st h = Inr (st2\<lparr>currentLevel := elem_level h\<rparr>)"
    by (simp add: process_def)
  moreover from st2(2) have "valid_refs (st2\<lparr>currentLevel := elem_level h\<rparr>)"
    by (simp add: valid_refs_def)
  ultimately show ?thesis using st1 st2 by simp
qed

lemma process_all_snoc:
  "process_all st (hs @ [h]) =
     (case process_all st hs of Inl e \<Rightarrow> Inl e | Inr st' \<Rightarrow> process st' h)"
  by (induction hs arbitrary: st) (auto split: sum.splits)

lemma process_all_valid:
  assumes "valid_refs st"
  shows "\<exists>st'. process_all st hs = Inr st' \<and> valid_refs st'
      \<and> last (stack st') = last (stack st)
      \<and> entries (tree st') = entries (tree st) + mset (map (\<lambda>h. (elem_text h, href h)) hs)"
proof (induction hs rule: rev_induct)
  case Nil
  with assms show ?case by simp
next
  case (snoc h hs)
  then obtain st1 where st1: "process_all st hs = Inr st1" "valid_refs st1"
    "entries (tree st1) = entries (tree st) + mset (map (\<lambda>h. (elem_text h, href h)) hs)"
    "last (stack st1) = last (stack st)"
    by blast
  from process_valid [OF st1(2), of h] obtain st2 where
    st2: "process st1 h = Inr st2" "valid_refs st2"
    "entries (tree st2) = entries (tree st1) + item_entries (list_item h)"
    "last (stack st2) = last (stack st1)"
    by blast
  from st1 st2 show ?case
    by (simp add: process_all_snoc list_item_def)
qed

lemma valid_refs_init: "valid_refs (init root)"
  by (simp add: valid_refs_def init_def)

section \<open>The two cases of a step\<close>

text \<open>
  Claim C3. For a heading whose level \<open>L\<close> is at most \<^verbatim>\<open>currentLevel\<close> and a stack of
  height at least 1, the step removes exactly \<open>min (currentLevel - L) (height - 1)\<close>
  references from the top of the stack and appends the item of the heading to the list
  that is on top then. The stack stays non-empty and its bottom, the root element, stays.
\<close>

theorem ascending_case:
  assumes "elem_level h \<le> currentLevel st" and "stack st \<noteq> []"
    and "n = min (currentLevel st - elem_level h) (length (stack st) - 1)"
    and "list_at (hd (drop n (stack st))) (tree st) = Some l"
  shows "\<exists>t. process st h = Inr \<lparr>tree = t, stack = drop n (stack st), currentLevel = elem_level h\<rparr>
      \<and> modify_at (hd (drop n (stack st))) (\<lambda>l. l @ [list_item h]) (tree st) = Some t
      \<and> list_at (hd (drop n (stack st))) t = Some (l @ [list_item h])
      \<and> length (drop n (stack st)) = length (stack st) - n
      \<and> drop n (stack st) \<noteq> []
      \<and> last (drop n (stack st)) = last (stack st)"
proof -
  from assms(2) have "0 < length (stack st)" by simp
  with assms(3) have n: "n < length (stack st)" by (simp add: min_less_iff_disj)
  then have ne: "drop n (stack st) \<noteq> []" by (simp only: drop_eq_Nil not_le)
  then obtain tp rest where d: "drop n (stack st) = tp # rest" by (cases "drop n (stack st)") auto
  from assms(1,3) have a: "ascend st (elem_level h) = st\<lparr>stack := drop n (stack st)\<rparr>"
    by (simp add: ascend_def splice0_def splice_count)
  let ?st1 = "st\<lparr>stack := drop n (stack st)\<rparr>"
  from d have s1: "stack ?st1 = tp # rest" by simp
  from assms(4) d have l1: "list_at tp (tree ?st1) = Some l" by simp
  from appendTo_list_top [OF s1 l1, of "list_item h"] obtain t where
    t: "list_at tp t = Some (l @ [list_item h])"
    "appendTo_list ?st1 (list_item h) = Inr (?st1\<lparr>tree := t\<rparr>)"
    "modify_at tp (\<lambda>l. l @ [list_item h]) (tree ?st1) = Some t"
    by blast
  from assms(1) a t(2)
  have "process st h = Inr \<lparr>tree = t, stack = drop n (stack st), currentLevel = elem_level h\<rparr>"
    by (simp add: process_def)
  moreover from n have "last (drop n (stack st)) = last (stack st)" by (rule last_drop)
  moreover from t(1) d have "list_at (hd (drop n (stack st))) t = Some (l @ [list_item h])"
    by simp
  moreover from t(3) d
  have "modify_at (hd (drop n (stack st))) (\<lambda>l. l @ [list_item h]) (tree st) = Some t"
    by simp
  ultimately show ?thesis using ne by (intro exI [of _ t]) simp
qed

text \<open>Three open lists and a heading at level 0: two references go, the root stays.\<close>

theorem ascending_case_witness:
  "process open_lists (heading_D 0) =
     Inr \<lparr>tree = [Item (js ''A'') (js ''#A'') [[Item (js ''B'') (js ''#B'') [[Item (js ''C'') (js ''#C'') []]]]],
                  Item (js ''D'') (js ''#D'') []],
          stack = [[]], currentLevel = 0\<rparr>"
proof -
  have a: "elem_level (heading_D 0) \<le> currentLevel open_lists"
    by (simp add: heading_D_def)
  have b: "stack open_lists \<noteq> []" by (simp add: open_lists_def)
  have c: "2 = min (currentLevel open_lists - elem_level (heading_D 0)) (length (stack open_lists) - 1)"
    by (simp add: open_lists_def heading_D_def)
  have d: "list_at (hd (drop 2 (stack open_lists))) (tree open_lists) = Some (tree open_lists)"
    by (simp add: open_lists_def)
  from ascending_case [OF a b c d] obtain t where
    t: "process open_lists (heading_D 0)
        = Inr \<lparr>tree = t, stack = drop 2 (stack open_lists), currentLevel = elem_level (heading_D 0)\<rparr>"
    "list_at (hd (drop 2 (stack open_lists))) t = Some (tree open_lists @ [list_item (heading_D 0)])"
    by blast
  have e: "drop 2 (stack open_lists) = [[]]" by (simp add: open_lists_def)
  from t(2) have "t = tree open_lists @ [list_item (heading_D 0)]"
    by (simp add: e)
  with t(1) show ?thesis
    by (simp add: e open_lists_def heading_D_def list_item_def href_def js_def)
qed

text \<open>
  Claim C4. For a heading whose level is above \<^verbatim>\<open>currentLevel\<close>: when the list \<open>l\<close> on
  top of the stack has an item, a new list is made the last child of the last item of
  \<open>l\<close>, the reference to it is pushed, and the list holds the item of the heading and
  nothing else; when \<open>l\<close> has no item, the stack stays as it is and the item of the
  heading is appended to \<open>l\<close>. No list is created without an item in it.
\<close>

theorem descending_case:
  assumes "currentLevel st < elem_level h" and "stack st = tp # rest"
    and "list_at tp (tree st) = Some l"
  shows "(l \<noteq> [] \<longrightarrow>
          (\<exists>t. process st h =
                  Inr \<lparr>tree = t,
                       stack = (tp @ [(length l - 1, length (item_lists (last l)))]) # tp # rest,
                       currentLevel = elem_level h\<rparr>
             \<and> modify_at tp
                   (\<lambda>_. butlast l @ [Item (item_text (last l)) (item_href (last l))
                                           (item_lists (last l) @ [[list_item h]])])
                   (tree st) = Some t
             \<and> list_at (tp @ [(length l - 1, length (item_lists (last l)))]) t = Some [list_item h]
             \<and> list_at tp t =
                 Some (butlast l @ [Item (item_text (last l)) (item_href (last l))
                                         (item_lists (last l) @ [[list_item h]])])))
     \<and> (l = [] \<longrightarrow>
          (\<exists>t. process st h = Inr \<lparr>tree = t, stack = tp # rest, currentLevel = elem_level h\<rparr>
             \<and> modify_at tp (\<lambda>l. l @ [list_item h]) (tree st) = Some t
             \<and> list_at tp t = Some [list_item h]))"
proof (cases "l = []")
  case True
  with assms have d: "descend st = Inr st" by (simp add: descend_empty)
  from appendTo_list_top [OF assms(2,3), of "list_item h"] obtain t where
    t: "list_at tp t = Some (l @ [list_item h])"
    "appendTo_list st (list_item h) = Inr (st\<lparr>tree := t\<rparr>)"
    "modify_at tp (\<lambda>l. l @ [list_item h]) (tree st) = Some t"
    by blast
  from assms(1,2) d t(2)
  have "process st h = Inr \<lparr>tree = t, stack = tp # rest, currentLevel = elem_level h\<rparr>"
    by (simp add: process_def)
  with t(1,3) True show ?thesis by auto
next
  case False
  let ?np = "tp @ [(length l - 1, length (item_lists (last l)))]"
  let ?l2 = "butlast l @ [Item (item_text (last l)) (item_href (last l))
                               (item_lists (last l) @ [[list_item h]])]"
  from descend_push [OF assms(2,3) False] obtain t1 where
    t1: "list_at tp t1 = Some (appendTo_item l)"
    "descend st = Inr (st\<lparr>tree := t1, stack := ?np # stack st\<rparr>)"
    "modify_at tp appendTo_item (tree st) = Some t1"
    by blast
  let ?st1 = "st\<lparr>tree := t1, stack := ?np # stack st\<rparr>"
  have s1: "stack ?st1 = ?np # stack st" by simp
  have tr: "tree ?st1 = t1" by simp
  have l1: "list_at ?np (tree ?st1) = Some []"
    by (simp only: tr list_at_append t1(1) option.case list_at_new_list [OF False])
  from appendTo_list_top [OF s1 l1, of "list_item h"] obtain t where
    t: "modify_at ?np (\<lambda>l. l @ [list_item h]) (tree ?st1) = Some t"
    "list_at ?np t = Some ([] @ [list_item h])"
    "appendTo_list ?st1 (list_item h) = Inr (?st1\<lparr>tree := t\<rparr>)"
    by blast
  from t(1) have m: "modify_at tp (\<lambda>_. ?l2) t1 = Some t"
    by (simp only: tr modify_at_append t1(1) option.case modify_new_list [OF False])
  with modify_at_defined [OF t1(1), of "\<lambda>_. ?l2"] have top: "list_at tp t = Some ?l2"
    by auto
  from m modify_at_compose [OF t1(3), of "\<lambda>_. ?l2"]
  have whole: "modify_at tp (\<lambda>_. ?l2) (tree st) = Some t" by simp
  from assms(1,2) t1(2) t(3)
  have "process st h = Inr \<lparr>tree = t, stack = ?np # tp # rest, currentLevel = elem_level h\<rparr>"
    by (simp add: process_def)
  with t(2) top whole False show ?thesis by auto
qed

text \<open>
  A heading at level 3 below three open lists, and a heading at level 2 as the first one
  of a run.
\<close>

theorem descending_case_witness:
  "(\<exists>t. process open_lists (heading_D 3) =
          Inr \<lparr>tree = t, stack = [[(0, 0), (0, 0), (0, 0)], [(0, 0), (0, 0)], [(0, 0)], []],
               currentLevel = 3\<rparr>
      \<and> list_at [(0, 0), (0, 0), (0, 0)] t = Some [Item (js ''D'') (js ''#D'') []]
      \<and> list_at [(0, 0), (0, 0)] t
          = Some [Item (js ''C'') (js ''#C'') [[Item (js ''D'') (js ''#D'') []]]])
   \<and> process (init []) (heading_D 2)
       = Inr \<lparr>tree = [Item (js ''D'') (js ''#D'') []], stack = [[]], currentLevel = 2\<rparr>"
proof -
  have a: "currentLevel open_lists < elem_level (heading_D 3)"
    by (simp add: open_lists_def heading_D_def)
  have b: "stack open_lists = [(0, 0), (0, 0)] # [[(0, 0)], []]"
    by (simp add: open_lists_def)
  have c: "list_at [(0, 0), (0, 0)] (tree open_lists) = Some [Item (js ''C'') (js ''#C'') []]"
    by (simp add: open_lists_def)
  have i: "list_item (heading_D L) = Item (js ''D'') (js ''#D'') []" for L
    by (simp add: list_item_def heading_D_def href_def js_def)
  have lv: "elem_level (heading_D L) = L" for L
    by (simp add: heading_D_def)
  from descending_case [OF a b c]
  have first: "\<exists>t. process open_lists (heading_D 3) =
          Inr \<lparr>tree = t, stack = [[(0, 0), (0, 0), (0, 0)], [(0, 0), (0, 0)], [(0, 0)], []],
               currentLevel = 3\<rparr>
      \<and> list_at [(0, 0), (0, 0), (0, 0)] t = Some [Item (js ''D'') (js ''#D'') []]
      \<and> list_at [(0, 0), (0, 0)] t
          = Some [Item (js ''C'') (js ''#C'') [[Item (js ''D'') (js ''#D'') []]]]"
    by (auto simp add: i lv simp del: list_at.simps modify_at.simps)
  have a': "currentLevel (init []) < elem_level (heading_D 2)"
    by (simp add: init_def heading_D_def)
  have b': "stack (init []) = [] # []" by (simp add: init_def)
  have c': "list_at [] (tree (init [])) = Some []" by (simp add: init_def)
  from descending_case [OF a' b' c']
  have "process (init []) (heading_D 2)
       = Inr \<lparr>tree = [Item (js ''D'') (js ''#D'') []], stack = [[]], currentLevel = 2\<rparr>"
    by (simp add: i lv)
  with first show ?thesis by blast
qed

section \<open>The stack during a run\<close>

lemma process_all_take_Suc:
  assumes "k < length hs" and "process_all st (take k hs) = Inr st1"
  shows "process_all st (take (Suc k) hs) = process st1 (hs ! k)"
  using assms by (simp add: take_Suc_conv_app_nth process_all_snoc)

text \<open>
  Claim C8. In the run over any headings \<open>hs\<close>, from any root element: after each prefix
  of \<open>hs\<close> the loop has not failed, the stack is not empty and the root element is at its
  bottom, and the step for the next heading makes the stack at most one reference higher.
\<close>

theorem stack_never_empty:
  "\<forall>k\<le>length hs. \<exists>st. process_all (init root) (take k hs) = Inr st
      \<and> stack st \<noteq> [] \<and> last (stack st) = []
      \<and> (k < length hs \<longrightarrow>
           (\<exists>st'. process st (hs ! k) = Inr st'
              \<and> process_all (init root) (take (Suc k) hs) = Inr st'
              \<and> stack st' \<noteq> []
              \<and> length (stack st') \<le> length (stack st) + 1))"
proof (intro allI impI)
  fix k assume "k \<le> length hs"
  from process_all_valid [OF valid_refs_init, of root "take k hs"] obtain st where
    st: "process_all (init root) (take k hs) = Inr st" "valid_refs st"
    "last (stack st) = last (stack (init root))"
    by blast
  from process_valid [OF st(2), of "hs ! k"] obtain st' where
    st': "process st (hs ! k) = Inr st'" "valid_refs st'"
    "length (stack st') \<le> Suc (length (stack st))"
    by blast
  from st(1) st'(1) have "k < length hs \<longrightarrow> process_all (init root) (take (Suc k) hs) = Inr st'"
    by (simp add: process_all_take_Suc)
  with st st' show "\<exists>st. process_all (init root) (take k hs) = Inr st
      \<and> stack st \<noteq> [] \<and> last (stack st) = []
      \<and> (k < length hs \<longrightarrow>
           (\<exists>st'. process st (hs ! k) = Inr st'
              \<and> process_all (init root) (take (Suc k) hs) = Inr st'
              \<and> stack st' \<noteq> []
              \<and> length (stack st') \<le> length (stack st) + 1))"
    by (auto simp: valid_refs_def init_def)
qed

text \<open>The levels 0, 1, 2, 0 after three headings and at the fourth.\<close>

theorem stack_never_empty_witness:
  "\<exists>st. process_all (init []) (take 3 levels_0120) = Inr st
      \<and> stack st \<noteq> [] \<and> last (stack st) = []
      \<and> (\<exists>st'. process st (levels_0120 ! 3) = Inr st'
              \<and> process_all (init []) (take (Suc 3) levels_0120) = Inr st'
              \<and> stack st' \<noteq> []
              \<and> length (stack st') \<le> length (stack st) + 1)"
proof -
  have "3 \<le> length levels_0120" and "3 < length levels_0120"
    by (simp_all add: levels_0120_def)
  with stack_never_empty [of levels_0120 "[]"] show ?thesis by blast
qed

text \<open>
  The scenarios of the specification: after the levels 0, 1, 2, 0 the stack is back at the
  root and the fourth item is a sibling of the first; for the levels 0, 2, 2 there is one
  nested list, with two items.
\<close>

lemma recovery_example:
  "process_all (init []) levels_0120 =
     Inr \<lparr>tree = [Item (js ''D'') (js ''#D'')
                    [[Item (js ''D'') (js ''#D'') [[Item (js ''D'') (js ''#D'') []]]]],
                  Item (js ''D'') (js ''#D'') []],
          stack = [[]], currentLevel = 0\<rparr>"
  by code_simp

lemma skipped_level_example:
  "process_all (init []) (map heading_D [0, 2, 2]) =
     Inr \<lparr>tree = [Item (js ''D'') (js ''#D'')
                    [[Item (js ''D'') (js ''#D'') [], Item (js ''D'') (js ''#D'') []]]],
          stack = [[(0, 0)], []], currentLevel = 2\<rparr>"
  by code_simp

section \<open>The items of the outline\<close>

lemma attr_id_entries:
  "map (\<lambda>h. (elem_text h, href h)) (attr_id fmt inside doc n hs)
     = zip (map elem_text hs)
         (map (\<lambda>i. js ''#'' @ i) (map (\<lambda>h. the (elem_id h)) (attr_id fmt inside doc n hs)))"
  by (induction hs arbitrary: doc n) (simp_all add: href_def)

lemma toc_entries:
  "\<exists>st. toc fmt inside others root hs = Inr st
     \<and> entries (tree st) = entries root
          + mset (zip (map elem_text hs) (map (\<lambda>i. js ''#'' @ i) (assigned_ids fmt inside others hs)))"
proof -
  from process_all_valid [OF valid_refs_init, of root "attr_id fmt inside (document_ids inside others hs) 0 hs"]
  obtain st where "process_all (init root) (attr_id fmt inside (document_ids inside others hs) 0 hs) = Inr st"
    and "entries (tree st) = entries (tree (init root))
      + mset (map (\<lambda>h. (elem_text h, href h)) (attr_id fmt inside (document_ids inside others hs) 0 hs))"
    by blast
  then show ?thesis
    by (simp add: toc_def attr_id_entries assigned_ids_def init_def)
qed

text \<open>
  Claim C10. The run does not fail, and the items of the outline after it are the items
  of the root element before it and, for each heading, one item with the text of the
  heading and the link target \<^verbatim>\<open>#\<close> followed by its identifier. So the run adds as
  many items as there are headings, whatever their levels, and on a root element without
  items the outline has exactly that many.
\<close>

theorem one_item_per_heading:
  "(\<exists>st. toc fmt inside others root hs = Inr st
      \<and> entries (tree st) = entries root
           + mset (zip (map elem_text hs) (map (\<lambda>i. js ''#'' @ i) (assigned_ids fmt inside others hs)))
      \<and> size (entries (tree st)) = size (entries root) + length hs)
   \<and> (\<exists>st. toc fmt inside others [] hs = Inr st \<and> size (entries (tree st)) = length hs)"
proof -
  have n: "length (assigned_ids fmt inside others hs) = length hs"
    by (simp add: assigned_ids_def)
  have "\<exists>st. toc fmt inside others r hs = Inr st
      \<and> entries (tree st) = entries r
           + mset (zip (map elem_text hs) (map (\<lambda>i. js ''#'' @ i) (assigned_ids fmt inside others hs)))
      \<and> size (entries (tree st)) = size (entries r) + length hs" for r
  proof -
    from toc_entries [of fmt inside others r hs] obtain st where
      st: "toc fmt inside others r hs = Inr st"
      "entries (tree st) = entries r
         + mset (zip (map elem_text hs) (map (\<lambda>i. js ''#'' @ i) (assigned_ids fmt inside others hs)))"
      by blast
    from st(2) n have "size (entries (tree st)) = size (entries r) + length hs"
      by simp
    with st show ?thesis by blast
  qed
  from this [of root] this [of "[]"] show ?thesis
    by (auto simp: entries_def)
qed

section \<open>Two runs on the same headings\<close>

lemma truncate_fields [simp]:
  "elem_text (heading.truncate h) = elem_text h"
  "elem_id (heading.truncate h) = elem_id h"
  "elem_level (heading.truncate h) = elem_level h"
  by (simp_all add: heading.truncate_def)

lemma assign_truncate: "assign fmt attached doc (heading.truncate h) = assign fmt attached doc h"
  by (simp add: assign_def has_id_def)

lemma truncate_update:
  "heading.truncate (h\<lparr>elem_id := x\<rparr>) = (heading.truncate h)\<lparr>elem_id := x\<rparr>"
  by (simp add: heading.truncate_def)

lemma attr_id_truncate:
  "attr_id fmt inside doc n (map heading.truncate hs)
     = map heading.truncate (attr_id fmt inside doc n hs)"
  by (induction hs arbitrary: doc n) (simp_all add: assign_truncate truncate_update)

lemma heading_ids_truncate:
  "heading_ids inside n (map heading.truncate hs) = heading_ids inside n hs"
  by (induction hs arbitrary: n) (simp_all add: seen_id_def)

lemma document_ids_truncate:
  "document_ids inside others (map heading.truncate hs) = document_ids inside others hs"
  by (simp add: document_ids_def heading_ids_truncate)

lemma assigned_ids_truncate:
  "assigned_ids fmt inside others (map heading.truncate hs) = assigned_ids fmt inside others hs"
  by (simp add: assigned_ids_def document_ids_truncate attr_id_truncate comp_def)

lemma list_item_truncate: "list_item (heading.truncate h) = list_item h"
  by (simp add: list_item_def href_def)

lemma process_truncate: "process st (heading.truncate h) = process st h"
  by (simp only: process_def list_item_truncate truncate_fields)

lemma process_all_truncate: "process_all st (map heading.truncate hs) = process_all st hs"
  by (induction hs arbitrary: st) (simp_all add: process_truncate split: sum.splits)

lemma toc_truncate: "toc fmt inside others root (map heading.truncate hs) = toc fmt inside others root hs"
proof -
  have "process_all st (map heading.truncate (attr_id fmt inside (document_ids inside others hs) 0 hs))
      = process_all st (attr_id fmt inside (document_ids inside others hs) 0 hs)" for st
    by (rule process_all_truncate)
  then show ?thesis
    by (simp add: toc_def document_ids_truncate attr_id_truncate)
qed

lemma same_fields_truncate:
  fixes hs1 :: "'a heading_scheme list" and hs2 :: "'b heading_scheme list"
  assumes "map elem_text hs1 = map elem_text hs2"
    and "map elem_id hs1 = map elem_id hs2"
    and "map elem_level hs1 = map elem_level hs2"
  shows "map heading.truncate hs1 = map heading.truncate hs2"
proof (rule nth_equalityI)
  from assms(1) show len: "length (map heading.truncate hs1) = length (map heading.truncate hs2)"
    by (auto dest: map_eq_imp_length_eq)
  fix i assume "i < length (map heading.truncate hs1)"
  with len have i: "i < length hs1" "i < length hs2" by simp_all
  from assms(1) i have "elem_text (hs1 ! i) = elem_text (hs2 ! i)"
    by (metis nth_map)
  moreover from assms(2) i have "elem_id (hs1 ! i) = elem_id (hs2 ! i)"
    by (metis nth_map)
  moreover from assms(3) i have "elem_level (hs1 ! i) = elem_level (hs2 ! i)"
    by (metis nth_map)
  ultimately show "map heading.truncate hs1 ! i = map heading.truncate hs2 ! i"
    using i by (simp add: heading.truncate_def)
qed

text \<open>
  Claim C9. Two runs in the same format, on documents with the same other identifiers (in
  particular none) and on headings that are at the same places, have the same texts, the
  same \<^verbatim>\<open>id\<close> attributes and the same levels, whatever else the elements may differ in,
  assign the same identifiers and build the same outline, hence outlines of the same
  shape.
\<close>

theorem same_headings_same_outline:
  fixes hs1 :: "'a heading_scheme list" and hs2 :: "'b heading_scheme list"
  assumes "map elem_text hs1 = map elem_text hs2"
    and "map elem_id hs1 = map elem_id hs2"
    and "map elem_level hs1 = map elem_level hs2"
  shows "assigned_ids fmt inside others hs1 = assigned_ids fmt inside others hs2
    \<and> toc fmt inside others root hs1 = toc fmt inside others root hs2
    \<and> outline_shape (toc fmt inside others root hs1) = outline_shape (toc fmt inside others root hs2)"
proof -
  from same_fields_truncate [OF assms]
  have t: "map heading.truncate hs1 = map heading.truncate hs2" .
  have "assigned_ids fmt inside others hs1 = assigned_ids fmt inside others (map heading.truncate hs1)"
    by (simp only: assigned_ids_truncate)
  also have "\<dots> = assigned_ids fmt inside others hs2"
    by (simp only: t assigned_ids_truncate)
  finally have ids: "assigned_ids fmt inside others hs1 = assigned_ids fmt inside others hs2" .
  have "toc fmt inside others root hs1 = toc fmt inside others root (map heading.truncate hs1)"
    by (simp only: toc_truncate)
  also have "\<dots> = toc fmt inside others root hs2"
    by (simp only: t toc_truncate)
  finally have "toc fmt inside others root hs1 = toc fmt inside others root hs2" .
  with ids show ?thesis by simp
qed

text \<open>The example headings and the same headings as elements with one more field.\<close>

theorem same_headings_same_outline_witness:
  "assigned_ids Underscore (\<lambda>_. True) [] example_headings = assigned_ids Underscore (\<lambda>_. True) [] second_run
   \<and> toc Underscore (\<lambda>_. True) [] [] example_headings = toc Underscore (\<lambda>_. True) [] [] second_run
   \<and> outline_shape (toc Underscore (\<lambda>_. True) [] [] example_headings)
       = outline_shape (toc Underscore (\<lambda>_. True) [] [] second_run)
   \<and> assigned_ids Underscore (\<lambda>_. True) [] second_run = [js ''foo_1'', js ''foo'', js ''foo_2'']
   \<and> outline_shape (toc Underscore (\<lambda>_. True) [] [] second_run) = Inr [Shape [[Shape [], Shape []]]]"
proof -
  have a: "map elem_text example_headings = map elem_text second_run"
    by (simp add: second_run_def heading.defs comp_def)
  have b: "map elem_id example_headings = map elem_id second_run"
    by (simp add: second_run_def heading.defs comp_def)
  have c: "map elem_level example_headings = map elem_level second_run"
    by (simp add: second_run_def heading.defs comp_def)
  have d: "assigned_ids Underscore (\<lambda>_. True) [] example_headings = [js ''foo_1'', js ''foo'', js ''foo_2'']"
    by code_simp
  have e: "outline_shape (toc Underscore (\<lambda>_. True) [] [] example_headings) = Inr [Shape [[Shape [], Shape []]]]"
    by code_simp
  from same_headings_same_outline [OF a b c, of Underscore "\<lambda>_. True" "[]" "[]"] d e
  show ?thesis by simp
qed

end
